theory Spec2Isabelle
  imports Complex_Main "HOL-Library.Product_Lexorder"
begin

section \<open>Request schemas of app/models.py\<close>

text \<open>
  The non-persistent schemas (\<^verbatim>\<open>table=False\<close>) are validated when they are constructed:
  a constraint of a \<^verbatim>\<open>Field\<close> that a supplied value breaks raises a validation error, and a
  field that is not supplied takes its declared default. Strings are character lists, one
  character per code point; integers are unbounded.
\<close>

datatype error = ValidationError | IntegrityError

subsection \<open>Field constraints\<close>

definition min_length :: "nat \<Rightarrow> string \<Rightarrow> bool" where
  "min_length n s = (n \<le> length s)"

definition max_length :: "nat \<Rightarrow> string \<Rightarrow> bool" where
  "max_length n s = (length s \<le> n)"

definition ge :: "int \<Rightarrow> int \<Rightarrow> bool" where
  "ge b v = (b \<le> v)"

definition le :: "int \<Rightarrow> int \<Rightarrow> bool" where
  "le b v = (v \<le> b)"

text \<open>A constraint on an \<^verbatim>\<open>Optional[str]\<close> field applies to a string, not to \<^verbatim>\<open>None\<close>.\<close>

definition optional :: "('a \<Rightarrow> bool) \<Rightarrow> 'a option \<Rightarrow> bool" where
  "optional c v = (case v of None \<Rightarrow> True | Some x \<Rightarrow> c x)"

subsection \<open>SearchRequest\<close>

record SearchRequest =
  query :: string
  post_type :: "string option"
  category_slug :: "string option"
  tag_slug :: "string option"
  limit :: int
  offset :: int

text \<open>
  The keyword arguments of the constructor: \<open>None\<close> is an argument that was not supplied.
  \<^verbatim>\<open>post_type\<close>, \<^verbatim>\<open>category_slug\<close> and \<^verbatim>\<open>tag_slug\<close> are optional strings, so a supplied
  value can itself be \<^verbatim>\<open>None\<close>.
\<close>

record SearchRequest_args =
  arg_query :: "string option"
  arg_post_type :: "string option option"
  arg_category_slug :: "string option option"
  arg_tag_slug :: "string option option"
  arg_limit :: "int option"
  arg_offset :: "int option"

text \<open>A field: the default when nothing is supplied, the constraint on a supplied value.\<close>

definition field :: "'a \<Rightarrow> ('a \<Rightarrow> bool) \<Rightarrow> 'a option \<Rightarrow> error + 'a" where
  "field dflt c v =
     (case v of None \<Rightarrow> Inr dflt
      | Some x \<Rightarrow> if c x then Inr x else Inl ValidationError)"

text \<open>A field with no default: not supplying it is a validation error.\<close>

definition required :: "('a \<Rightarrow> bool) \<Rightarrow> 'a option \<Rightarrow> error + 'a" where
  "required c v =
     (case v of None \<Rightarrow> Inl ValidationError
      | Some x \<Rightarrow> if c x then Inr x else Inl ValidationError)"

definition new_SearchRequest :: "SearchRequest_args \<Rightarrow> error + SearchRequest" where
  "new_SearchRequest a =
     (case required (\<lambda>s. min_length 1 s \<and> max_length 255 s) (arg_query a) of
        Inl e \<Rightarrow> Inl e
      | Inr q \<Rightarrow>
     (case field (Some ''post'') (optional (max_length 50)) (arg_post_type a) of
        Inl e \<Rightarrow> Inl e
      | Inr pt \<Rightarrow>
     (case field None (optional (max_length 255)) (arg_category_slug a) of
        Inl e \<Rightarrow> Inl e
      | Inr cs \<Rightarrow>
     (case field None (optional (max_length 255)) (arg_tag_slug a) of
        Inl e \<Rightarrow> Inl e
      | Inr ts \<Rightarrow>
     (case field 10 (\<lambda>v. ge 1 v \<and> le 100 v) (arg_limit a) of
        Inl e \<Rightarrow> Inl e
      | Inr l \<Rightarrow>
     (case field 0 (ge 0) (arg_offset a) of
        Inl e \<Rightarrow> Inl e
      | Inr off \<Rightarrow>
          Inr \<lparr>query = q, post_type = pt, category_slug = cs, tag_slug = ts,
               limit = l, offset = off\<rparr>))))))"

subsection \<open>PaginationParams\<close>

record PaginationParams =
  page :: int
  per_page :: int
  order_by :: string
  order :: string

record PaginationParams_args =
  arg_page :: "int option"
  arg_per_page :: "int option"
  arg_order_by :: "string option"
  arg_order :: "string option"

text \<open>
  \<^verbatim>\<open>order\<close> is declared \<^verbatim>\<open>Field(default="desc", regex="^(asc|desc)$")\<close>. The schemas are
  pydantic v2 models (the file calls \<^verbatim>\<open>model_rebuild\<close>), where the constraint on the form
  of a string is named \<^verbatim>\<open>pattern\<close>: \<^verbatim>\<open>regex\<close> is none of the constraints of a field and is
  dropped when the field is built. So the construction checks nothing of a supplied
  \<^verbatim>\<open>order\<close> and takes any string.
\<close>

definition any_value :: "'a \<Rightarrow> bool" where
  "any_value v = True"

definition new_PaginationParams :: "PaginationParams_args \<Rightarrow> error + PaginationParams" where
  "new_PaginationParams a =
     (case field 1 (ge 1) (arg_page a) of
        Inl e \<Rightarrow> Inl e
      | Inr p \<Rightarrow>
     (case field 10 (\<lambda>v. ge 1 v \<and> le 100 v) (arg_per_page a) of
        Inl e \<Rightarrow> Inl e
      | Inr pp \<Rightarrow>
     (case field ''wp_created_at'' (max_length 50) (arg_order_by a) of
        Inl e \<Rightarrow> Inl e
      | Inr ob \<Rightarrow>
     (case field ''desc'' any_value (arg_order a) of
        Inl e \<Rightarrow> Inl e
      | Inr ord \<Rightarrow>
          Inr \<lparr>page = p, per_page = pp, order_by = ob, order = ord\<rparr>))))"

section \<open>Persistent models of app/models.py\<close>

text \<open>
  A persistent model (\<^verbatim>\<open>table=True\<close>) declares a table: one column for each field that is
  not a \<^verbatim>\<open>Relationship\<close>. Of a column the development keeps its name and the
  \<^verbatim>\<open>primary_key\<close>, \<^verbatim>\<open>unique\<close> and \<^verbatim>\<open>index\<close> flags of its \<^verbatim>\<open>Field\<close>; a column is nullable
  when its type is \<^verbatim>\<open>Optional\<close> and it is not part of the primary key, and when it is
  given as \<^verbatim>\<open>sa_column=Column(JSON)\<close>, which sets no \<^verbatim>\<open>nullable\<close> flag.
\<close>

datatype column =
  Column (col_name: string) (primary_key: bool) (unique: bool) (index: bool) (nullable: bool)

text \<open>The entity kinds and the two association tables.\<close>

datatype kind = User | Media | Post | Page | CustomPostType

definition User_columns :: "column list" where
  "User_columns =
    [Column ''id'' True False False False,
     Column ''wp_id'' False True True False,
     Column ''name'' False False False False,
     Column ''email'' False False True False,
     Column ''slug'' False True True False,
     Column ''description'' False False False False,
     Column ''avatar_url'' False False False True,
     Column ''website_url'' False False False True,
     Column ''created_at'' False False False False,
     Column ''updated_at'' False False False False]"

definition Media_columns :: "column list" where
  "Media_columns =
    [Column ''id'' True False False False,
     Column ''wp_id'' False True True False,
     Column ''title'' False False False False,
     Column ''filename'' False False False False,
     Column ''alt_text'' False False False False,
     Column ''caption'' False False False False,
     Column ''description'' False False False False,
     Column ''mime_type'' False False True False,
     Column ''file_size'' False False False True,
     Column ''width'' False False False True,
     Column ''height'' False False False True,
     Column ''source_url'' False False False False,
     Column ''sizes'' False False False True,
     Column ''created_at'' False False False False,
     Column ''updated_at'' False False False False]"

definition Post_columns :: "column list" where
  "Post_columns =
    [Column ''id'' True False False False,
     Column ''wp_id'' False True True False,
     Column ''title'' False False True False,
     Column ''slug'' False True True False,
     Column ''content'' False False False False,
     Column ''excerpt'' False False False False,
     Column ''status'' False False True False,
     Column ''post_type'' False False True False,
     Column ''comment_count'' False False False False,
     Column ''view_count'' False False False False,
     Column ''meta_title'' False False False True,
     Column ''meta_description'' False False False True,
     Column ''wp_created_at'' False False True False,
     Column ''wp_updated_at'' False False True False,
     Column ''created_at'' False False False False,
     Column ''updated_at'' False False False False,
     Column ''author_id'' False False True True,
     Column ''featured_image_id'' False False False True]"

definition Page_columns :: "column list" where
  "Page_columns =
    [Column ''id'' True False False False,
     Column ''wp_id'' False True True False,
     Column ''title'' False False True False,
     Column ''slug'' False True True False,
     Column ''content'' False False False False,
     Column ''status'' False False True False,
     Column ''parent_id'' False False False True,
     Column ''menu_order'' False False False False,
     Column ''template'' False False False True,
     Column ''meta_title'' False False False True,
     Column ''meta_description'' False False False True,
     Column ''wp_created_at'' False False True False,
     Column ''wp_updated_at'' False False True False,
     Column ''created_at'' False False False False,
     Column ''updated_at'' False False False False,
     Column ''author_id'' False False True True,
     Column ''featured_image_id'' False False False True]"

definition CustomPostType_columns :: "column list" where
  "CustomPostType_columns =
    [Column ''id'' True False False False,
     Column ''wp_id'' False True True False,
     Column ''post_type'' False False True False,
     Column ''title'' False False True False,
     Column ''slug'' False False True False,
     Column ''content'' False False False False,
     Column ''excerpt'' False False False False,
     Column ''status'' False False True False,
     Column ''custom_fields'' False False False True,
     Column ''wp_created_at'' False False True False,
     Column ''wp_updated_at'' False False True False,
     Column ''created_at'' False False False False,
     Column ''updated_at'' False False False False,
     Column ''author_id'' False False True True,
     Column ''featured_image_id'' False False False True]"

definition PostCategoryLink_columns :: "column list" where
  "PostCategoryLink_columns =
    [Column ''post_id'' True False False False,
     Column ''category_id'' True False False False]"

definition PostTagLink_columns :: "column list" where
  "PostTagLink_columns =
    [Column ''post_id'' True False False False,
     Column ''tag_id'' True False False False]"

fun columns_of :: "kind \<Rightarrow> column list" where
  "columns_of User = User_columns"
| "columns_of Media = Media_columns"
| "columns_of Post = Post_columns"
| "columns_of Page = Page_columns"
| "columns_of CustomPostType = CustomPostType_columns"

definition has_column :: "column list \<Rightarrow> string \<Rightarrow> bool" where
  "has_column cols n = (n \<in> set (map col_name cols))"

subsection \<open>What the declared constraints mean for the rows of a table\<close>

text \<open>
  A stored row lists the values of its columns; a column it does not list is SQL's
  \<^verbatim>\<open>NULL\<close>. The constraints are those the declarations put on the table: a row has
  values for columns of the table only, a column that is not nullable holds a value in
  every row, the values of a \<^verbatim>\<open>unique\<close> column are pairwise different (a \<^verbatim>\<open>NULL\<close>
  clashes with nothing), and no two rows agree on all columns of the primary key.
\<close>

datatype val = IntV int | StrV string

type_synonym row = "(string \<times> val) list"

definition get :: "row \<Rightarrow> string \<Rightarrow> val option" where
  "get r n = map_of r n"

definition row_ok :: "column list \<Rightarrow> row \<Rightarrow> bool" where
  "row_ok cols r =
     (list_all (\<lambda>(n, v). has_column cols n) r
      \<and> list_all (\<lambda>c. nullable c \<or> get r (col_name c) \<noteq> None) cols)"

definition unique_ok :: "string \<Rightarrow> row list \<Rightarrow> bool" where
  "unique_ok n rows = distinct (filter (\<lambda>v. v \<noteq> None) (map (\<lambda>r. get r n) rows))"

definition pk_names :: "column list \<Rightarrow> string list" where
  "pk_names cols = map col_name (filter primary_key cols)"

definition pk_of :: "column list \<Rightarrow> row \<Rightarrow> val option list" where
  "pk_of cols r = map (get r) (pk_names cols)"

definition table_ok :: "column list \<Rightarrow> row list \<Rightarrow> bool" where
  "table_ok cols rows =
     (list_all (row_ok cols) rows
      \<and> list_all (\<lambda>c. \<not> unique c \<or> unique_ok (col_name c) rows) cols
      \<and> distinct (map (pk_of cols) rows))"

text \<open>
  The writes of a table: a row is inserted as it is stored (its identifier included),
  rows are deleted, rows are updated. Each statement is checked against the constraints
  and refused with an integrity error, the table unchanged, when the rows it would leave
  break one. A table starts empty and is changed by writes only.
\<close>

datatype write_op = Insert row | Delete "row \<Rightarrow> bool" | Update "row \<Rightarrow> bool" "row \<Rightarrow> row"

fun apply_write_rows :: "write_op \<Rightarrow> row list \<Rightarrow> row list" where
  "apply_write_rows (Insert r) rows = rows @ [r]"
| "apply_write_rows (Delete p) rows = filter (\<lambda>r. \<not> p r) rows"
| "apply_write_rows (Update p f) rows = map (\<lambda>r. if p r then f r else r) rows"

definition apply_write :: "column list \<Rightarrow> write_op \<Rightarrow> row list \<Rightarrow> error + row list" where
  "apply_write cols w rows =
     (let rows' = apply_write_rows w rows
      in if table_ok cols rows' then Inr rows' else Inl IntegrityError)"

fun run_writes :: "column list \<Rightarrow> write_op list \<Rightarrow> row list \<Rightarrow> row list" where
  "run_writes cols [] rows = rows"
| "run_writes cols (w # ws) rows =
     (case apply_write cols w rows of
        Inl e \<Rightarrow> run_writes cols ws rows
      | Inr rows' \<Rightarrow> run_writes cols ws rows')"

text \<open>The (post, term) pairs of the edges stored in an association table.\<close>

definition edge_pairs :: "string \<Rightarrow> string \<Rightarrow> row list \<Rightarrow> (val option \<times> val option) list" where
  "edge_pairs a b rows = map (\<lambda>r. (get r a, get r b)) rows"

text \<open>The table after a write: a refused write leaves it as it was.\<close>

definition after_write :: "column list \<Rightarrow> write_op \<Rightarrow> row list \<Rightarrow> row list" where
  "after_write cols w rows =
     (case apply_write cols w rows of Inl e \<Rightarrow> rows | Inr rows' \<Rightarrow> rows')"

text \<open>The slugs of the stored rows of a table.\<close>

definition slugs :: "row list \<Rightarrow> val option list" where
  "slugs rows = map (\<lambda>r. get r ''slug'') rows"

text \<open>
  Sample rows: a user and a custom post with a given identifier and slug, a media row
  with a given identifier, the other columns that must hold a value filled in, and an
  edge of each association table.
\<close>

definition user_row :: "int \<Rightarrow> string \<Rightarrow> row" where
  "user_row i s =
    [(''id'', IntV i), (''wp_id'', IntV i), (''name'', StrV ''n''), (''email'', StrV ''e''),
     (''slug'', StrV s), (''description'', StrV []), (''created_at'', IntV 0),
     (''updated_at'', IntV 0)]"

definition custom_post_row :: "int \<Rightarrow> string \<Rightarrow> row" where
  "custom_post_row i s =
    [(''id'', IntV i), (''wp_id'', IntV i), (''post_type'', StrV ''book''),
     (''title'', StrV ''t''), (''slug'', StrV s), (''content'', StrV []),
     (''excerpt'', StrV []), (''status'', StrV ''publish''), (''custom_fields'', StrV ''{}''),
     (''wp_created_at'', IntV 0), (''wp_updated_at'', IntV 0), (''created_at'', IntV 0),
     (''updated_at'', IntV 0)]"

definition media_row :: "int \<Rightarrow> row" where
  "media_row i =
    [(''id'', IntV i), (''wp_id'', IntV i), (''title'', StrV ''t''),
     (''filename'', StrV ''f.png''), (''alt_text'', StrV []), (''caption'', StrV []),
     (''description'', StrV []), (''mime_type'', StrV ''image/png''),
     (''source_url'', StrV ''u''), (''sizes'', StrV ''{}''), (''created_at'', IntV 0),
     (''updated_at'', IntV 0)]"

definition category_edge :: "int \<Rightarrow> int \<Rightarrow> row" where
  "category_edge p c = [(''post_id'', IntV p), (''category_id'', IntV c)]"

definition tag_edge :: "int \<Rightarrow> int \<Rightarrow> row" where
  "tag_edge p t = [(''post_id'', IntV p), (''tag_id'', IntV t)]"

section \<open>Paginated responses\<close>

record PaginatedResponse =
  total :: int
  page :: int
  per_page :: int
  total_pages :: int
  has_next :: bool
  has_previous :: bool

text \<open>
  Modelled from the spec: the assembly of a paginated response. The repository declares
  the shape \<^verbatim>\<open>PaginatedResponse\<close> and has no code that fills it. By the pagination
  sub-contract of the View Assembler, \<^verbatim>\<open>total_pages = ceil(total / per_page)\<close>,
  \<^verbatim>\<open>has_next = page < total_pages\<close> and \<^verbatim>\<open>has_previous = page > 1\<close>; the items of a page
  are the \<^verbatim>\<open>per_page\<close> items after the \<^verbatim>\<open>(page - 1) * per_page\<close> items of the pages
  before it, taken from the ordered list of all matching items.
\<close>

definition paginate :: "'a list \<Rightarrow> PaginationParams \<Rightarrow> 'a list \<times> PaginatedResponse" where
  "paginate all_items p =
     (let n = int (length all_items);
          pages = \<lceil>real_of_int n / real_of_int (PaginationParams.per_page p)\<rceil>
      in (take (nat (PaginationParams.per_page p))
            (drop (nat ((PaginationParams.page p - 1) * PaginationParams.per_page p)) all_items),
          \<lparr>total = n, page = PaginationParams.page p,
            per_page = PaginationParams.per_page p, total_pages = pages,
            has_next = (PaginationParams.page p < pages),
            has_previous = (PaginationParams.page p > 1)\<rparr>))"

text \<open>
  Modelled from the spec: a paginated list query validates its parameters before any
  other work and answers with the page.
\<close>

definition list_query ::
  "'a list \<Rightarrow> PaginationParams_args \<Rightarrow> error + 'a list \<times> PaginatedResponse" where
  "list_query all_items a =
     (case new_PaginationParams a of
        Inl e \<Rightarrow> Inl e
      | Inr p \<Rightarrow> Inr (paginate all_items p))"

section \<open>Response cache\<close>

text \<open>
  The cache table of app/models.py: one entry per \<^verbatim>\<open>cache_key\<close> (the column is unique).
  Times are instants on an integer clock, and a time to live is a number of its ticks.
  The identifier that the database assigns to a row is left out.
\<close>

record 'd CacheEntry =
  cache_key :: string
  data :: 'd
  expires_at :: "int option"
  created_at :: int
  updated_at :: int

text \<open>
  Modelled from the spec: the state of the Response Cache, the entries by fingerprint and
  the fingerprints whose single-flight lock is held. The repository declares the table
  \<^verbatim>\<open>CacheEntry\<close> and has no code of the cache.
\<close>

record 'd cache =
  entries :: "string \<Rightarrow> 'd CacheEntry option"
  in_flight :: "string list"

text \<open>Modelled from the spec: the cache is empty at startup.\<close>

definition empty_cache :: "'d cache" where
  "empty_cache = \<lparr>entries = (\<lambda>k. None), in_flight = []\<rparr>"

text \<open>
  Modelled from the spec: an entry is expired at a read when its \<^verbatim>\<open>expires_at\<close> has
  passed; an entry without \<^verbatim>\<open>expires_at\<close> never expires. A read finds the data of an
  entry that is present and not expired; an expired entry is a miss, and stays in the
  table until a result overwrites it (reclaiming expired rows is not part of the
  contract of \<^verbatim>\<open>get_or_compute\<close>).
\<close>

definition expired :: "int \<Rightarrow> 'd CacheEntry \<Rightarrow> bool" where
  "expired now e = (case expires_at e of None \<Rightarrow> False | Some t \<Rightarrow> t < now)"

definition cache_read :: "'d cache \<Rightarrow> string \<Rightarrow> int \<Rightarrow> 'd option" where
  "cache_read c fingerprint now =
     (case entries c fingerprint of
        None \<Rightarrow> None
      | Some e \<Rightarrow> if expired now e then None else Some (data e))"

text \<open>
  Modelled from the spec: a result is stored with \<^verbatim>\<open>expires_at = now + ttl\<close>, and with no
  \<^verbatim>\<open>expires_at\<close> when \<^verbatim>\<open>ttl\<close> is 0 (cache until invalidated). Storing overwrites the entry
  of the fingerprint.
\<close>

definition new_entry :: "string \<Rightarrow> int \<Rightarrow> int \<Rightarrow> 'd \<Rightarrow> 'd CacheEntry" where
  "new_entry fingerprint ttl now d =
     \<lparr>cache_key = fingerprint, data = d,
      expires_at = (if ttl = 0 then None else Some (now + ttl)),
      created_at = now, updated_at = now\<rparr>"

definition cache_store :: "string \<Rightarrow> 'd CacheEntry \<Rightarrow> 'd cache \<Rightarrow> 'd cache" where
  "cache_store fingerprint e c = c\<lparr>entries := (entries c)(fingerprint \<mapsto> e)\<rparr>"

text \<open>
  Modelled from the spec: the single-flight lock of a fingerprint is taken for a
  computation and released after it.
\<close>

definition acquire :: "string \<Rightarrow> 'd cache \<Rightarrow> 'd cache" where
  "acquire fingerprint c = c\<lparr>in_flight := fingerprint # in_flight c\<rparr>"

definition release :: "string \<Rightarrow> 'd cache \<Rightarrow> 'd cache" where
  "release fingerprint c = c\<lparr>in_flight := remove1 fingerprint (in_flight c)\<rparr>"

text \<open>
  Modelled from the spec: \<^verbatim>\<open>get_or_compute(fingerprint, ttl, compute_fn)\<close>, called at the
  instant \<open>now\<close>. The compute function runs on the world outside the cache (the record
  store, a call counter), which it may change, and fails with \<open>Inl\<close> or succeeds with
  \<open>Inr\<close>. A hit returns the cached data and touches nothing. A miss takes the lock of
  the fingerprint, runs the compute function once and releases the lock whether it failed
  or not; a result is stored and returned, a failure is returned as it is and nothing is
  stored. A miss on a fingerprint whose lock is held waits for the holder: in a run of
  one caller after the other nobody releases it, and the call does not return (\<open>None\<close>).
\<close>

definition get_or_compute ::
  "string \<Rightarrow> int \<Rightarrow> ('w \<Rightarrow> ('e + 'd) \<times> 'w) \<Rightarrow> int \<Rightarrow> 'd cache \<times> 'w
   \<Rightarrow> (('e + 'd) \<times> 'd cache \<times> 'w) option" where
  "get_or_compute fingerprint ttl compute_fn now s =
     (case s of (c, w) \<Rightarrow>
       (case cache_read c fingerprint now of
          Some d \<Rightarrow> Some (Inr d, c, w)
        | None \<Rightarrow>
            if fingerprint \<in> set (in_flight c) then None
            else
              (let c1 = acquire fingerprint c in
               case compute_fn w of
                 (Inl failure, w') \<Rightarrow> Some (Inl failure, release fingerprint c1, w')
               | (Inr d, w') \<Rightarrow>
                   Some (Inr d,
                     release fingerprint
                       (cache_store fingerprint (new_entry fingerprint ttl now d) c1),
                     w'))))"

text \<open>A compute function that counts its calls in the world and returns a result.\<close>

definition counting :: "('e + 'd) \<Rightarrow> nat \<Rightarrow> ('e + 'd) \<times> nat" where
  "counting result calls = (result, Suc calls)"

section \<open>Hierarchy Resolver\<close>

text \<open>
  What the resolver reads of a hierarchical entity (\<^verbatim>\<open>Category\<close>, \<^verbatim>\<open>Page\<close>, \<^verbatim>\<open>MenuItem\<close> of
  app/models.py): its identifier, its optional \<^verbatim>\<open>parent_id\<close>, and its ordering key (the
  \<^verbatim>\<open>name\<close> of a category, the \<^verbatim>\<open>menu_order\<close> of a page, the \<^verbatim>\<open>order\<close> of a menu item).
  The identifier is the primary key of the table.
\<close>

record 'k hnode =
  node_id :: int
  parent_id :: "int option"
  order_key :: 'k

text \<open>
  A node of the resolved forest: the entity and the ordered sequence of its children, as
  \<^verbatim>\<open>MenuItemResponse\<close> nests its \<^verbatim>\<open>children\<close>.
\<close>

datatype 'k tree = Node (entity: "'k hnode") (children: "'k tree list")

text \<open>
  Modelled from the spec: the Hierarchy Resolver, of which the repository has the entity
  declarations only. The candidate nodes (of one kind, and of one menu for menu items)
  are loaded in one pass: they are the list the resolver is given. Children are ordered
  by a stable sort on the ordering key, ties broken by identifier ascending.
\<close>

definition ordered :: "('k::linorder) hnode list \<Rightarrow> 'k hnode list" where
  "ordered ns = sort_key (\<lambda>n. (order_key n, node_id n)) ns"

definition ids :: "'k hnode list \<Rightarrow> int list" where
  "ids ns = map node_id ns"

text \<open>Modelled from the spec: the mapping from a parent identifier to its children.\<close>

definition children_of :: "('k::linorder) hnode list \<Rightarrow> int \<Rightarrow> 'k hnode list" where
  "children_of ns p = ordered (filter (\<lambda>n. parent_id n = Some p) ns)"

text \<open>
  Modelled from the spec: a declared root is a node with no parent, or whose parent is
  not among the nodes; in the second case its parent reference is dangling.
\<close>

definition declared_root :: "'k hnode list \<Rightarrow> 'k hnode \<Rightarrow> bool" where
  "declared_root ns n =
     (case parent_id n of None \<Rightarrow> True | Some p \<Rightarrow> p \<notin> set (ids ns))"

definition dangling :: "'k hnode list \<Rightarrow> 'k hnode \<Rightarrow> bool" where
  "dangling ns n =
     (case parent_id n of None \<Rightarrow> False | Some p \<Rightarrow> p \<notin> set (ids ns))"

text \<open>
  Modelled from the spec: the depth-first walk over a list of siblings, threading the
  identifiers visited so far.
  A node that was visited already is not entered again; a node that is entered is marked
  visited before its children are walked, so a walk that comes back to it stops there.
\<close>

function walk ::
  "('k::linorder) hnode list \<Rightarrow> int list \<Rightarrow> 'k hnode list \<Rightarrow> 'k tree list \<times> int list" where
  "walk ns visited [] = ([], visited)"
| "walk ns visited (n # siblings) =
     (if node_id n \<in> set visited then walk ns visited siblings
      else
        (case walk ns (node_id n # visited) (children_of ns (node_id n)) of
           (below, visited1) \<Rightarrow>
             (case walk ns visited1 siblings of
                (beside, visited2) \<Rightarrow> (Node n below # beside, visited2))))"
  by pat_completeness auto

text \<open>The walk terminates: every node that is entered is one more visited identifier.\<close>

lemma set_ordered: "set (ordered ns) = set ns"
  by (simp add: ordered_def)

lemma children_of_subset: "set (children_of ns p) \<subseteq> set ns"
  by (auto simp: children_of_def set_ordered)

lemma ids_children_of_subset: "set (ids (children_of ns p)) \<subseteq> set (ids ns)"
  using children_of_subset [of ns p] by (auto simp: ids_def)

lemma card_less_pick:
  assumes "finite S" and "S' \<subseteq> S" and "x \<in> S" and "x \<notin> S'"
  shows "card S' < card S"
proof -
  from assms have "S' \<subset> S" by blast
  with assms(1) show ?thesis by (rule psubset_card_mono)
qed

lemma walk_visited_grows:
  "walk_dom (ns, visited, wl) \<Longrightarrow> set visited \<subseteq> set (snd (walk ns visited wl))"
proof (induction ns visited wl rule: walk.pinduct)
  case (1 ns visited)
  then show ?case by (simp add: walk.psimps)
next
  case (2 ns visited n siblings)
  show ?case
  proof (cases "node_id n \<in> set visited")
    case True
    with 2 show ?thesis by (simp add: walk.psimps)
  next
    case False
    obtain below visited1 where b: "walk ns (node_id n # visited) (children_of ns (node_id n)) = (below, visited1)"
      by (cases "walk ns (node_id n # visited) (children_of ns (node_id n))")
    obtain beside visited2 where s: "walk ns visited1 siblings = (beside, visited2)"
      by (cases "walk ns visited1 siblings")
    from 2(3) [OF False] b have "set (node_id n # visited) \<subseteq> set visited1" by simp
    moreover from 2(4) [OF False b [symmetric]] s have "set visited1 \<subseteq> set visited2" by simp
    ultimately have "set visited \<subseteq> set visited2" by auto
    then show ?thesis using 2(1) False b s by (simp add: walk.psimps)
  qed
qed

termination walk
proof (relation "inv_image (less_than <*lex*> less_than)
    (\<lambda>(ns, visited, wl). (card ((set (ids ns) \<union> set (ids wl)) - set visited), length wl))",
    goal_cases)
  case 1
  show ?case by (intro wf_inv_image wf_lex_prod wf_less_than)
next
  case (2 ns visited n siblings)
  then have "(set (ids ns) \<union> set (ids (n # siblings))) - set visited
           = (set (ids ns) \<union> set (ids siblings)) - set visited"
    by (auto simp: ids_def)
  then show ?case by simp
next
  case (3 ns visited n siblings)
  let ?S = "(set (ids ns) \<union> set (ids (n # siblings))) - set visited"
  let ?S' = "(set (ids ns) \<union> set (ids (children_of ns (node_id n)))) - set (node_id n # visited)"
  have "card ?S' < card ?S"
  proof (rule card_less_pick [where x = "node_id n"])
    show "finite ?S" by simp
    show "?S' \<subseteq> ?S" using ids_children_of_subset [of ns "node_id n"] by auto
    show "node_id n \<in> ?S" using 3 by (simp add: ids_def)
    show "node_id n \<notin> ?S'" by simp
  qed
  then show ?case by simp
next
  case (4 ns visited n siblings below visited1)
  let ?S = "(set (ids ns) \<union> set (ids (n # siblings))) - set visited"
  let ?S' = "(set (ids ns) \<union> set (ids siblings)) - set visited1"
  from walk_visited_grows [OF 4(3)] 4(2)
  have g: "set (node_id n # visited) \<subseteq> set visited1" by (metis snd_conv)
  have "card ?S' < card ?S"
  proof (rule card_less_pick [where x = "node_id n"])
    show "finite ?S" by simp
    show "?S' \<subseteq> ?S" using g by (auto simp: ids_def)
    show "node_id n \<in> ?S" using 4(1) by (simp add: ids_def)
    show "node_id n \<notin> ?S'" using g by simp
  qed
  then show ?case by simp
qed

text \<open>
  Modelled from the spec: the result of the resolver, the forest and the metadata of a
  \<^verbatim>\<open>HierarchyIntegrityWarning\<close>, the identifiers of the nodes that were demoted to roots
  (the warning is reported when there are any). The walk starts from every declared
  root. A node whose parent is missing is a declared root and keeps its subtree. A node
  that the walk did not reach has no chain of parents up to a declared root (the chain
  runs into a cycle): it becomes a root with no children.
\<close>

record 'k resolution =
  forest :: "'k tree list"
  demoted :: "int list"

definition resolve :: "('k::linorder) hnode list \<Rightarrow> 'k resolution" where
  "resolve ns =
     (case walk ns [] (ordered (filter (declared_root ns) ns)) of
        (attached, visited) \<Rightarrow>
          (let unreached = ordered (filter (\<lambda>n. node_id n \<notin> set visited) ns)
           in \<lparr>forest = attached @ map (\<lambda>n. Node n []) unreached,
               demoted = ids (ordered (filter (dangling ns) ns)) @ ids unreached\<rparr>))"

text \<open>The nodes of a forest, every occurrence listed, parents before children.\<close>

fun nodes_of :: "'k tree \<Rightarrow> 'k hnode list" where
  "nodes_of (Node n ts) = n # concat (map nodes_of ts)"

definition forest_nodes :: "'k tree list \<Rightarrow> 'k hnode list" where
  "forest_nodes ts = concat (map nodes_of ts)"

text \<open>
  The parent of every occurrence of a node in a forest: \<open>None\<close> for a root, the
  identifier of the node above it otherwise.
\<close>

fun links :: "int option \<Rightarrow> 'k tree \<Rightarrow> (int \<times> int option) list" where
  "links p (Node n ts) = (node_id n, p) # concat (map (links (Some (node_id n))) ts)"

definition forest_links :: "'k tree list \<Rightarrow> (int \<times> int option) list" where
  "forest_links ts = concat (map (links None) ts)"

text \<open>The paths of a forest, from a root downwards, as lists of identifiers.\<close>

fun paths :: "'k tree \<Rightarrow> int list list" where
  "paths (Node n ts) = [node_id n] # map ((#) (node_id n)) (concat (map paths ts))"

definition forest_paths :: "'k tree list \<Rightarrow> int list list" where
  "forest_paths ts = concat (map paths ts)"

text \<open>
  A node is anchored when its chain of parents ends in a declared root. A node that is
  not anchored is reachable through a cycle only.
\<close>

inductive anchored :: "'k hnode list \<Rightarrow> 'k hnode \<Rightarrow> bool" for ns where
  root: "n \<in> set ns \<Longrightarrow> declared_root ns n \<Longrightarrow> anchored ns n"
| child: "anchored ns m \<Longrightarrow> n \<in> set ns \<Longrightarrow> parent_id n = Some (node_id m) \<Longrightarrow> anchored ns n"

text \<open>Sample nodes, ordered by an integer key.\<close>

definition hn :: "int \<Rightarrow> int option \<Rightarrow> int \<Rightarrow> int hnode" where
  "hn i p k = \<lparr>node_id = i, parent_id = p, order_key = k\<rparr>"

code_pred anchored .

text \<open>The nodes of a forest below its roots.\<close>

definition inner_nodes :: "'k tree list \<Rightarrow> 'k hnode list" where
  "inner_nodes ts = concat (map (\<lambda>t. forest_nodes (children t)) ts)"

section \<open>Properties of the request schemas\<close>

text \<open>
  Claim C6. A search request with an empty query string is refused with a validation
  error, whatever its other arguments are, and every search request that is constructed
  has a query of at least one character. The constructor is a function of its arguments
  alone: it reads no stored record before it refuses.
\<close>

theorem empty_query_rejected:
  "new_SearchRequest (a\<lparr>arg_query := Some []\<rparr>) = Inl ValidationError
   \<and> (\<forall>r. new_SearchRequest a = Inr r \<longrightarrow> 1 \<le> length (query r))"
proof
  show "new_SearchRequest (a\<lparr>arg_query := Some []\<rparr>) = Inl ValidationError"
    by (simp add: new_SearchRequest_def required_def min_length_def)
next
  show "\<forall>r. new_SearchRequest a = Inr r \<longrightarrow> 1 \<le> length (query r)"
  proof (intro allI impI)
    fix r
    assume ok: "new_SearchRequest a = Inr r"
    then obtain q where q: "required (\<lambda>s. min_length 1 s \<and> max_length 255 s) (arg_query a) = Inr q"
      by (cases "required (\<lambda>s. min_length 1 s \<and> max_length 255 s) (arg_query a)")
         (simp_all add: new_SearchRequest_def)
    from ok q have "query r = q"
      by (auto simp: new_SearchRequest_def split: sum.splits)
    moreover from q have "1 \<le> length q"
      by (auto simp: required_def min_length_def split: option.splits if_splits)
    ultimately show "1 \<le> length (query r)" by simp
  qed
qed

theorem empty_query_rejected_witness:
  "new_SearchRequest \<lparr>arg_query = Some [], arg_post_type = None, arg_category_slug = None,
      arg_tag_slug = None, arg_limit = None, arg_offset = None\<rparr> = Inl ValidationError
   \<and> new_SearchRequest \<lparr>arg_query = Some ''cats'', arg_post_type = None, arg_category_slug = None,
      arg_tag_slug = None, arg_limit = None, arg_offset = None\<rparr>
     = Inr \<lparr>query = ''cats'', post_type = Some ''post'', category_slug = None, tag_slug = None,
            limit = 10, offset = 0\<rparr>
   \<and> 1 \<le> length (query \<lparr>query = ''cats'', post_type = Some ''post'', category_slug = None,
            tag_slug = None, limit = 10, offset = 0\<rparr>)"
  using empty_query_rejected [of "\<lparr>arg_query = Some ''cats'', arg_post_type = None,
      arg_category_slug = None, arg_tag_slug = None, arg_limit = None, arg_offset = None\<rparr>"]
  by (simp add: new_SearchRequest_def required_def field_def min_length_def max_length_def)

text \<open>
  Claim C7, as the code has it. The claim accepts every set of parameters whose
  \<^verbatim>\<open>page\<close>, \<^verbatim>\<open>per_page\<close> and \<^verbatim>\<open>order\<close> are in range; the schema also bounds
  \<^verbatim>\<open>order_by\<close> to 50 characters, so parameters that are in range in those three are
  refused when \<^verbatim>\<open>order_by\<close> is longer.
\<close>

theorem pagination_order_by_counterexample:
  "new_PaginationParams \<lparr>arg_page = Some 1, arg_per_page = Some 10,
      arg_order_by = Some (replicate 51 (CHR ''a'')), arg_order = Some ''asc''\<rparr>
   = Inl ValidationError"
  by (simp add: new_PaginationParams_def field_def ge_def le_def max_length_def)

text \<open>
  Claim C7, amended. With each parameter that is not supplied at its default: the
  parameters are refused with a validation error when \<^verbatim>\<open>page\<close> is below 1, when
  \<^verbatim>\<open>per_page\<close> is outside 1..100 and when \<^verbatim>\<open>order_by\<close> has more than 50 characters,
  whatever the other parameters are; they are accepted, and returned as they are, when
  \<^verbatim>\<open>page\<close> is at least 1, \<^verbatim>\<open>per_page\<close> is between 1 and 100, \<^verbatim>\<open>order_by\<close> has at most 50
  characters and \<^verbatim>\<open>order\<close> is \<^verbatim>\<open>asc\<close> or \<^verbatim>\<open>desc\<close>.
\<close>

theorem pagination_params_validated:
  "(let p = (case arg_page a of None \<Rightarrow> 1 | Some v \<Rightarrow> v);
        pp = (case arg_per_page a of None \<Rightarrow> 10 | Some v \<Rightarrow> v);
        ob = (case arg_order_by a of None \<Rightarrow> ''wp_created_at'' | Some v \<Rightarrow> v);
        od = (case arg_order a of None \<Rightarrow> ''desc'' | Some v \<Rightarrow> v)
    in (p < 1 \<or> pp < 1 \<or> 100 < pp \<or> 50 < length ob \<longrightarrow>
          new_PaginationParams a = Inl ValidationError)
       \<and> (1 \<le> p \<and> 1 \<le> pp \<and> pp \<le> 100 \<and> length ob \<le> 50
            \<and> (od = ''asc'' \<or> od = ''desc'') \<longrightarrow>
          new_PaginationParams a
            = Inr \<lparr>PaginationParams.page = p, per_page = pp, order_by = ob, order = od\<rparr>))"
  by (auto simp: new_PaginationParams_def field_def ge_def le_def max_length_def
      any_value_def Let_def split: option.splits)

theorem pagination_params_validated_witness:
  "new_PaginationParams \<lparr>arg_page = Some 3, arg_per_page = Some 100,
      arg_order_by = Some ''title'', arg_order = Some ''asc''\<rparr>
   = Inr \<lparr>PaginationParams.page = 3, per_page = 100, order_by = ''title'', order = ''asc''\<rparr>
   \<and> new_PaginationParams \<lparr>arg_page = None, arg_per_page = None,
      arg_order_by = None, arg_order = None\<rparr>
   = Inr \<lparr>PaginationParams.page = 1, per_page = 10, order_by = ''wp_created_at'',
       order = ''desc''\<rparr>
   \<and> new_PaginationParams \<lparr>arg_page = Some 3, arg_per_page = Some 101,
      arg_order_by = Some ''title'', arg_order = Some ''asc''\<rparr> = Inl ValidationError
   \<and> new_PaginationParams \<lparr>arg_page = Some 3, arg_per_page = Some 0,
      arg_order_by = None, arg_order = None\<rparr> = Inl ValidationError
   \<and> new_PaginationParams \<lparr>arg_page = Some 0, arg_per_page = None,
      arg_order_by = None, arg_order = None\<rparr> = Inl ValidationError
   \<and> new_PaginationParams \<lparr>arg_page = None, arg_per_page = None,
      arg_order_by = Some (replicate 60 (CHR ''x'')), arg_order = Some ''desc''\<rparr>
     = Inl ValidationError"
  using pagination_params_validated [of "\<lparr>arg_page = Some 3, arg_per_page = Some 100,
      arg_order_by = Some ''title'', arg_order = Some ''asc''\<rparr>"]
    pagination_params_validated [of "\<lparr>arg_page = None, arg_per_page = None,
      arg_order_by = None, arg_order = None\<rparr>"]
    pagination_params_validated [of "\<lparr>arg_page = Some 3, arg_per_page = Some 101,
      arg_order_by = Some ''title'', arg_order = Some ''asc''\<rparr>"]
    pagination_params_validated [of "\<lparr>arg_page = Some 3, arg_per_page = Some 0,
      arg_order_by = None, arg_order = None\<rparr>"]
    pagination_params_validated [of "\<lparr>arg_page = Some 0, arg_per_page = None,
      arg_order_by = None, arg_order = None\<rparr>"]
    pagination_params_validated [of "\<lparr>arg_page = None, arg_per_page = None,
      arg_order_by = Some (replicate 60 (CHR ''x'')), arg_order = Some ''desc''\<rparr>"]
  by (simp add: Let_def)

text \<open>
  The pattern declared for \<^verbatim>\<open>order\<close> is not enforced: parameters with any other
  \<^verbatim>\<open>order\<close>, such as \<^verbatim>\<open>ASC\<close> or the empty string, are accepted as well.
\<close>

lemma order_pattern_not_enforced:
  "new_PaginationParams \<lparr>arg_page = None, arg_per_page = None, arg_order_by = None,
      arg_order = Some od\<rparr>
   = Inr \<lparr>PaginationParams.page = 1, per_page = 10, order_by = ''wp_created_at'',
       order = od\<rparr>"
  by (simp add: new_PaginationParams_def field_def any_value_def)

text \<open>
  Claim C10. A search request constructed from a query alone, none of the optional
  fields supplied, has \<^verbatim>\<open>post_type\<close> \<^verbatim>\<open>"post"\<close> (not \<^verbatim>\<open>None\<close>), no category slug, no tag
  slug, limit 10 and offset 0.
\<close>

theorem search_defaults:
  assumes "arg_post_type a = None" and "arg_category_slug a = None"
    and "arg_tag_slug a = None" and "arg_limit a = None" and "arg_offset a = None"
    and "new_SearchRequest a = Inr r"
  shows "post_type r = Some ''post'' \<and> category_slug r = None \<and> tag_slug r = None
         \<and> limit r = 10 \<and> offset r = 0 \<and> post_type r \<noteq> None"
  using assms
  by (auto simp: new_SearchRequest_def field_def split: sum.splits)

theorem search_defaults_witness:
  "new_SearchRequest \<lparr>arg_query = Some ''news'', arg_post_type = None,
      arg_category_slug = None, arg_tag_slug = None, arg_limit = None, arg_offset = None\<rparr>
     = Inr \<lparr>query = ''news'', post_type = Some ''post'', category_slug = None,
            tag_slug = None, limit = 10, offset = 0\<rparr>
   \<and> post_type \<lparr>query = ''news'', post_type = Some ''post'', category_slug = None,
            tag_slug = None, limit = 10, offset = 0\<rparr> = Some ''post''"
proof -
  have c: "new_SearchRequest \<lparr>arg_query = Some ''news'', arg_post_type = None,
      arg_category_slug = None, arg_tag_slug = None, arg_limit = None, arg_offset = None\<rparr>
     = Inr \<lparr>query = ''news'', post_type = Some ''post'', category_slug = None,
            tag_slug = None, limit = 10, offset = 0\<rparr>"
    by (simp add: new_SearchRequest_def required_def field_def min_length_def max_length_def)
  from search_defaults [OF _ _ _ _ _ c] c show ?thesis by simp
qed

section \<open>Properties of the tables\<close>

subsection \<open>Every table that writes produce meets its constraints\<close>

lemma table_ok_Nil: "table_ok cols []"
  by (simp add: table_ok_def unique_ok_def list_all_iff)

lemma after_write_ok: "table_ok cols rows \<Longrightarrow> table_ok cols (after_write cols w rows)"
  by (simp add: after_write_def apply_write_def Let_def)

lemma after_write_cases:
  "after_write cols w rows = rows \<or> table_ok cols (after_write cols w rows)"
  by (simp add: after_write_def apply_write_def Let_def)

lemma run_writes_after:
  "run_writes cols (w # ws) rows = run_writes cols ws (after_write cols w rows)"
  by (simp add: after_write_def split: sum.splits)

lemma run_writes_ok: "table_ok cols rows \<Longrightarrow> table_ok cols (run_writes cols ws rows)"
proof (induction ws arbitrary: rows)
  case Nil
  then show ?case by simp
next
  case (Cons w ws)
  from Cons.prems have "table_ok cols (after_write cols w rows)" by (rule after_write_ok)
  then have "table_ok cols (run_writes cols ws (after_write cols w rows))" by (rule Cons.IH)
  then show ?case by (simp only: run_writes_after)
qed

lemma reachable_ok: "table_ok cols (run_writes cols ws [])"
  by (rule run_writes_ok [OF table_ok_Nil])

subsection \<open>Columns that are unique, not null or absent\<close>

lemma unique_ok_distinct:
  "unique_ok n rows \<Longrightarrow> list_all (\<lambda>r. get r n \<noteq> None) rows
   \<Longrightarrow> distinct (map (\<lambda>r. get r n) rows)"
  unfolding unique_ok_def
  by (induction rows) auto

lemma table_ok_not_null_column:
  assumes "table_ok cols rows" and "c \<in> set cols" and "\<not> nullable c"
  shows "list_all (\<lambda>r. get r (col_name c) \<noteq> None) rows"
  using assms by (auto simp: table_ok_def row_ok_def list_all_iff)

lemma table_ok_unique_column:
  assumes "table_ok cols rows" and "c \<in> set cols" and "unique c" and "\<not> nullable c"
  shows "distinct (map (\<lambda>r. get r (col_name c)) rows)"
proof -
  from assms have u: "unique_ok (col_name c) rows"
    by (auto simp: table_ok_def list_all_iff)
  from assms have n: "list_all (\<lambda>r. get r (col_name c) \<noteq> None) rows"
    by (auto simp: table_ok_def row_ok_def list_all_iff)
  from unique_ok_distinct [OF u n] show ?thesis .
qed

lemma table_ok_no_column:
  assumes "table_ok cols rows" and "\<not> has_column cols n"
  shows "list_all (\<lambda>r. get r n = None) rows"
proof -
  have "get r n = None" if "r \<in> set rows" for r
  proof -
    from assms that have "list_all (\<lambda>(m, v). has_column cols m) r"
      by (auto simp: table_ok_def row_ok_def list_all_iff)
    with assms(2) have "n \<notin> fst ` set r" by (auto simp: list_all_iff)
    then show ?thesis by (simp add: get_def map_of_eq_None_iff)
  qed
  then show ?thesis by (simp add: list_all_iff)
qed

lemma slugs_present:
  assumes "table_ok cols rows" and "Column ''slug'' pk u ix False \<in> set cols"
  shows "list_all (\<lambda>v. v \<noteq> None) (slugs rows)"
  using table_ok_not_null_column [OF assms] by (simp add: slugs_def list_all_iff)

lemma slugs_distinct:
  assumes "table_ok cols rows" and "Column ''slug'' pk True ix False \<in> set cols"
  shows "distinct (slugs rows)"
  using table_ok_unique_column [OF assms] by (simp add: slugs_def)

lemma slugs_absent:
  assumes "table_ok cols rows" and "\<not> has_column cols ''slug''"
  shows "list_all (\<lambda>v. v = None) (slugs rows)"
  using table_ok_no_column [OF assms] by (simp add: slugs_def list_all_iff)

lemma slug_User: "Column ''slug'' False True True False \<in> set User_columns"
  by (simp add: User_columns_def)

lemma slug_Post: "Column ''slug'' False True True False \<in> set Post_columns"
  by (simp add: Post_columns_def)

lemma slug_Page: "Column ''slug'' False True True False \<in> set Page_columns"
  by (simp add: Page_columns_def)

lemma slug_CustomPostType: "Column ''slug'' False False True False \<in> set CustomPostType_columns"
  by (simp add: CustomPostType_columns_def)

lemma slug_Media: "\<not> has_column Media_columns ''slug''"
  by (simp add: Media_columns_def has_column_def)

lemma has_columnI: "c \<in> set cols \<Longrightarrow> has_column cols (col_name c)"
  by (simp add: has_column_def)

subsection \<open>Slugs\<close>

text \<open>
  Claim C4, as the code has it. The claim gives every entity kind a slug that is unique
  within the kind. Two custom posts with the same slug are both stored, since the slug of
  a custom post is indexed and not unique, and the media table has no slug column.
\<close>

theorem slug_unique_counterexample:
  "slugs (run_writes (columns_of CustomPostType)
      [Insert (custom_post_row 1 ''a''), Insert (custom_post_row 2 ''a'')] [])
     = [Some (StrV ''a''), Some (StrV ''a'')]
   \<and> has_column (columns_of Media) ''slug'' = False"
  by (simp add: apply_write_def table_ok_def row_ok_def unique_ok_def pk_of_def pk_names_def
      get_def has_column_def CustomPostType_columns_def custom_post_row_def slugs_def
      Media_columns_def)

text \<open>
  Claim C4, amended. In every table that writes produce from the empty table: a user, a
  post and a page each have a slug, and no two users, no two posts and no two pages have
  the same slug; a custom post has a slug, which other custom posts may share; a media
  row has no slug.
\<close>

theorem slug_per_kind:
  "(k = User \<or> k = Post \<or> k = Page \<longrightarrow>
      has_column (columns_of k) ''slug''
      \<and> list_all (\<lambda>v. v \<noteq> None) (slugs (run_writes (columns_of k) ws []))
      \<and> distinct (slugs (run_writes (columns_of k) ws [])))
   \<and> (k = CustomPostType \<longrightarrow>
      has_column (columns_of k) ''slug''
      \<and> list_all (\<lambda>v. v \<noteq> None) (slugs (run_writes (columns_of k) ws [])))
   \<and> (k = Media \<longrightarrow>
      \<not> has_column (columns_of k) ''slug''
      \<and> list_all (\<lambda>v. v = None) (slugs (run_writes (columns_of k) ws [])))"
proof (cases k)
  case User
  note m = slug_User
  from has_columnI [OF m] slugs_present [OF reachable_ok m] slugs_distinct [OF reachable_ok m]
  show ?thesis using User by simp
next
  case Post
  note m = slug_Post
  from has_columnI [OF m] slugs_present [OF reachable_ok m] slugs_distinct [OF reachable_ok m]
  show ?thesis using Post by simp
next
  case Page
  note m = slug_Page
  from has_columnI [OF m] slugs_present [OF reachable_ok m] slugs_distinct [OF reachable_ok m]
  show ?thesis using Page by simp
next
  case CustomPostType
  note m = slug_CustomPostType
  from has_columnI [OF m] slugs_present [OF reachable_ok m]
  show ?thesis using CustomPostType by simp
next
  case Media
  from slug_Media slugs_absent [OF reachable_ok slug_Media]
  show ?thesis using Media by simp
qed

theorem slug_per_kind_witness:
  "slugs (run_writes (columns_of User)
      [Insert (user_row 1 ''a''), Insert (user_row 2 ''a''), Insert (user_row 3 ''b'')] [])
     = [Some (StrV ''a''), Some (StrV ''b'')]
   \<and> distinct (slugs (run_writes (columns_of User)
      [Insert (user_row 1 ''a''), Insert (user_row 2 ''a''), Insert (user_row 3 ''b'')] []))
   \<and> slugs (run_writes (columns_of CustomPostType)
      [Insert (custom_post_row 1 ''a''), Insert (custom_post_row 2 ''b'')] [])
     = [Some (StrV ''a''), Some (StrV ''b'')]
   \<and> has_column (columns_of CustomPostType) ''slug''
   \<and> slugs (run_writes (columns_of Media) [Insert (media_row 1)] []) = [None]
   \<and> \<not> has_column (columns_of Media) ''slug''"
proof -
  have run: "run_writes (columns_of User)
      [Insert (user_row 1 ''a''), Insert (user_row 2 ''a''), Insert (user_row 3 ''b'')] []
      = [user_row 1 ''a'', user_row 3 ''b'']"
    by (simp add: apply_write_def table_ok_def row_ok_def unique_ok_def pk_of_def pk_names_def
      get_def has_column_def User_columns_def user_row_def)
  have u: "slugs [user_row 1 ''a'', user_row 3 ''b''] = [Some (StrV ''a''), Some (StrV ''b'')]"
    by (simp add: slugs_def get_def user_row_def)
  have c: "slugs (run_writes (columns_of CustomPostType)
      [Insert (custom_post_row 1 ''a''), Insert (custom_post_row 2 ''b'')] [])
     = [Some (StrV ''a''), Some (StrV ''b'')]"
    by (simp add: apply_write_def table_ok_def row_ok_def unique_ok_def pk_of_def pk_names_def
      get_def has_column_def CustomPostType_columns_def custom_post_row_def slugs_def)
  have m: "slugs (run_writes (columns_of Media) [Insert (media_row 1)] []) = [None]"
    by (simp add: apply_write_def table_ok_def row_ok_def unique_ok_def pk_of_def pk_names_def
      get_def has_column_def Media_columns_def media_row_def slugs_def)
  from slug_per_kind [of User
      "[Insert (user_row 1 ''a''), Insert (user_row 2 ''a''), Insert (user_row 3 ''b'')]"]
  have 1: "distinct (slugs (run_writes (columns_of User)
      [Insert (user_row 1 ''a''), Insert (user_row 2 ''a''), Insert (user_row 3 ''b'')] []))"
    by simp
  from slug_per_kind [of CustomPostType
      "[Insert (custom_post_row 1 ''a''), Insert (custom_post_row 2 ''b'')]"]
  have 2: "has_column (columns_of CustomPostType) ''slug''" by simp
  from slug_per_kind [of Media "[Insert (media_row 1)]"]
  have 3: "\<not> has_column (columns_of Media) ''slug''" by simp
  from run u c m 1 2 3 show ?thesis by simp
qed

subsection \<open>Association edges\<close>

lemma distinct_map_coarser:
  assumes "distinct (map f xs)" and "\<And>x y. g x = g y \<Longrightarrow> f x = f y"
  shows "distinct (map g xs)"
proof -
  from assms(1) have d: "distinct xs" and i: "inj_on f (set xs)"
    by (simp_all add: distinct_map)
  have "inj_on g (set xs)"
  proof (rule inj_onI)
    fix x y
    assume x: "x \<in> set xs" and y: "y \<in> set xs" and "g x = g y"
    then have "f x = f y" by (intro assms(2))
    with i x y show "x = y" by (simp add: inj_on_def)
  qed
  with d show ?thesis by (simp add: distinct_map)
qed

lemma pk_of_category:
  "pk_of PostCategoryLink_columns r = [get r ''post_id'', get r ''category_id'']"
  by (simp add: pk_of_def pk_names_def PostCategoryLink_columns_def)

lemma pk_of_tag: "pk_of PostTagLink_columns r = [get r ''post_id'', get r ''tag_id'']"
  by (simp add: pk_of_def pk_names_def PostTagLink_columns_def)

lemma category_pairs:
  assumes "table_ok PostCategoryLink_columns rows"
  shows "distinct (edge_pairs ''post_id'' ''category_id'' rows)"
proof -
  from assms have "distinct (map (pk_of PostCategoryLink_columns) rows)"
    by (simp add: table_ok_def)
  then have "distinct (map (\<lambda>r. (get r ''post_id'', get r ''category_id'')) rows)"
    by (rule distinct_map_coarser) (simp add: pk_of_category)
  then show ?thesis by (simp only: edge_pairs_def)
qed

lemma tag_pairs:
  assumes "table_ok PostTagLink_columns rows"
  shows "distinct (edge_pairs ''post_id'' ''tag_id'' rows)"
proof -
  from assms have "distinct (map (pk_of PostTagLink_columns) rows)"
    by (simp add: table_ok_def)
  then have "distinct (map (\<lambda>r. (get r ''post_id'', get r ''tag_id'')) rows)"
    by (rule distinct_map_coarser) (simp add: pk_of_tag)
  then show ?thesis by (simp only: edge_pairs_def)
qed

text \<open>
  Claim C5. In every table that writes produce from the empty table, no two edges of
  \<^verbatim>\<open>PostCategoryLink\<close> have the same (post, category) pair and no two edges of
  \<^verbatim>\<open>PostTagLink\<close> the same (post, tag) pair; and a write (an insert, a delete or an
  update, accepted or refused) to a table whose pairs are pairwise different leaves them
  pairwise different.
\<close>

theorem one_edge_per_pair:
  "distinct (edge_pairs ''post_id'' ''category_id'' (run_writes PostCategoryLink_columns ws []))
   \<and> distinct (edge_pairs ''post_id'' ''tag_id'' (run_writes PostTagLink_columns ws []))
   \<and> (distinct (edge_pairs ''post_id'' ''category_id'' rows) \<longrightarrow>
        distinct (edge_pairs ''post_id'' ''category_id''
          (after_write PostCategoryLink_columns w rows)))
   \<and> (distinct (edge_pairs ''post_id'' ''tag_id'' rows) \<longrightarrow>
        distinct (edge_pairs ''post_id'' ''tag_id'' (after_write PostTagLink_columns w rows)))"
proof (intro conjI impI)
  show "distinct (edge_pairs ''post_id'' ''category_id''
      (run_writes PostCategoryLink_columns ws []))"
    by (rule category_pairs [OF reachable_ok])
  show "distinct (edge_pairs ''post_id'' ''tag_id'' (run_writes PostTagLink_columns ws []))"
    by (rule tag_pairs [OF reachable_ok])
next
  assume d: "distinct (edge_pairs ''post_id'' ''category_id'' rows)"
  from after_write_cases [of PostCategoryLink_columns w rows]
  show "distinct (edge_pairs ''post_id'' ''category_id''
      (after_write PostCategoryLink_columns w rows))"
  proof
    assume "after_write PostCategoryLink_columns w rows = rows"
    with d show ?thesis by simp
  next
    assume "table_ok PostCategoryLink_columns (after_write PostCategoryLink_columns w rows)"
    then show ?thesis by (rule category_pairs)
  qed
next
  assume d: "distinct (edge_pairs ''post_id'' ''tag_id'' rows)"
  from after_write_cases [of PostTagLink_columns w rows]
  show "distinct (edge_pairs ''post_id'' ''tag_id'' (after_write PostTagLink_columns w rows))"
  proof
    assume "after_write PostTagLink_columns w rows = rows"
    with d show ?thesis by simp
  next
    assume "table_ok PostTagLink_columns (after_write PostTagLink_columns w rows)"
    then show ?thesis by (rule tag_pairs)
  qed
qed

theorem one_edge_per_pair_witness:
  "run_writes PostCategoryLink_columns
      [Insert (category_edge 1 2), Insert (category_edge 1 3), Insert (category_edge 1 2)] []
     = [category_edge 1 2, category_edge 1 3]
   \<and> distinct (edge_pairs ''post_id'' ''category_id'' [category_edge 1 2, category_edge 1 3])
   \<and> after_write PostCategoryLink_columns (Insert (category_edge 1 2))
        [category_edge 1 2, category_edge 1 3] = [category_edge 1 2, category_edge 1 3]
   \<and> after_write PostCategoryLink_columns (Delete (\<lambda>r. get r ''category_id'' = Some (IntV 2)))
        [category_edge 1 2, category_edge 1 3] = [category_edge 1 3]
   \<and> distinct (edge_pairs ''post_id'' ''category_id'' [category_edge 1 3])
   \<and> distinct (edge_pairs ''post_id'' ''tag_id'' [tag_edge 1 2, tag_edge 1 3])
   \<and> after_write PostTagLink_columns (Insert (tag_edge 1 4)) [tag_edge 1 2, tag_edge 1 3]
     = [tag_edge 1 2, tag_edge 1 3, tag_edge 1 4]
   \<and> distinct (edge_pairs ''post_id'' ''tag_id'' [tag_edge 1 2, tag_edge 1 3, tag_edge 1 4])"
proof -
  have run: "run_writes PostCategoryLink_columns
      [Insert (category_edge 1 2), Insert (category_edge 1 3), Insert (category_edge 1 2)] []
     = [category_edge 1 2, category_edge 1 3]"
    by (simp add: apply_write_def table_ok_def row_ok_def unique_ok_def pk_of_def
      pk_names_def get_def has_column_def PostCategoryLink_columns_def category_edge_def)
  have c: "after_write PostCategoryLink_columns (Insert (category_edge 1 2))
        [category_edge 1 2, category_edge 1 3] = [category_edge 1 2, category_edge 1 3]"
    by (simp add: after_write_def apply_write_def table_ok_def row_ok_def unique_ok_def
      pk_of_def pk_names_def get_def has_column_def PostCategoryLink_columns_def
      category_edge_def)
  have x: "after_write PostCategoryLink_columns
        (Delete (\<lambda>r. get r ''category_id'' = Some (IntV 2)))
        [category_edge 1 2, category_edge 1 3] = [category_edge 1 3]"
    by (simp add: after_write_def apply_write_def table_ok_def row_ok_def unique_ok_def
      pk_of_def pk_names_def get_def has_column_def PostCategoryLink_columns_def
      category_edge_def)
  have t: "after_write PostTagLink_columns (Insert (tag_edge 1 4)) [tag_edge 1 2, tag_edge 1 3]
     = [tag_edge 1 2, tag_edge 1 3, tag_edge 1 4]"
    by (simp add: after_write_def apply_write_def table_ok_def row_ok_def unique_ok_def
      pk_of_def pk_names_def get_def has_column_def PostTagLink_columns_def tag_edge_def)
  have d1: "distinct (edge_pairs ''post_id'' ''category_id''
      [category_edge 1 2, category_edge 1 3])"
    by (simp add: edge_pairs_def get_def category_edge_def)
  have d2: "distinct (edge_pairs ''post_id'' ''tag_id'' [tag_edge 1 2, tag_edge 1 3])"
    by (simp add: edge_pairs_def get_def tag_edge_def)
  from one_edge_per_pair [where
      ws = "[Insert (category_edge 1 2), Insert (category_edge 1 3), Insert (category_edge 1 2)]"
      and rows = "[tag_edge 1 2, tag_edge 1 3]" and w = "Insert (tag_edge 1 4)"]
    d2 t
  have d3: "distinct (edge_pairs ''post_id'' ''tag_id''
      [tag_edge 1 2, tag_edge 1 3, tag_edge 1 4])"
    by simp
  from one_edge_per_pair [where ws = "[]"
      and rows = "[category_edge 1 2, category_edge 1 3]"
      and w = "Delete (\<lambda>r. get r ''category_id'' = Some (IntV 2))"]
    d1 x
  have d4: "distinct (edge_pairs ''post_id'' ''category_id'' [category_edge 1 3])"
    by simp
  from run c x t d1 d2 d3 d4 show ?thesis by simp
qed

section \<open>Properties of paginated responses\<close>

lemma valid_params:
  assumes "new_PaginationParams a = Inr p"
  shows "1 \<le> PaginationParams.page p \<and> 1 \<le> PaginationParams.per_page p
         \<and> PaginationParams.per_page p \<le> 100"
  using assms
  by (auto simp: new_PaginationParams_def field_def ge_def le_def
      split: sum.splits option.splits if_splits)

lemma less_pages_iff:
  assumes "0 < pp"
  shows "pg < \<lceil>real_of_int n / real_of_int pp\<rceil> \<longleftrightarrow> pg * pp < n"
proof -
  have "pg < \<lceil>real_of_int n / real_of_int pp\<rceil>
        \<longleftrightarrow> real_of_int pg < real_of_int n / real_of_int pp"
    by (rule less_ceiling_iff)
  also have "\<dots> \<longleftrightarrow> real_of_int pg * real_of_int pp < real_of_int n"
    using assms by (simp add: pos_less_divide_eq)
  also have "\<dots> \<longleftrightarrow> real_of_int (pg * pp) < real_of_int n" by simp
  also have "\<dots> \<longleftrightarrow> pg * pp < n" by (rule of_int_less_iff)
  finally show ?thesis .
qed

lemma neg_div_neg:
  assumes "0 < (pp::int)"
  shows "- (- n div pp) = (n + pp - 1) div pp"
proof (cases "n mod pp = 0")
  case True
  then obtain q where n: "n = q * pp" by (metis mod_eq_0_iff_dvd dvd_def mult.commute)
  have "(q * pp + (pp - 1)) div pp = q + (pp - 1) div pp"
    using assms by simp
  moreover have "(pp - 1) div pp = 0" using assms by simp
  moreover have "- (q * pp) div pp = - q"
  proof -
    have "- (q * pp) = (- q) * pp" by simp
    then show ?thesis using assms by (simp only: nonzero_mult_div_cancel_right)
  qed
  ultimately show ?thesis using n by (simp add: algebra_simps)
next
  case False
  define q where "q = n div pp"
  define r where "r = n mod pp"
  have n: "n = q * pp + r" by (simp add: q_def r_def)
  have "0 \<le> r" using assms by (simp add: r_def)
  with False have r0: "0 < r" by (simp add: r_def)
  have r1: "r < pp" using assms by (simp add: r_def)
  note r = r0 r1
  have "- n = (- q - 1) * pp + (pp - r)" using n by (simp add: algebra_simps)
  then have "- n div pp = (- q - 1) + (pp - r) div pp"
    using assms by (metis div_mult_self3 less_numeral_extra(3))
  moreover have "(pp - r) div pp = 0" using r by simp
  moreover have "n + pp - 1 = (q + 1) * pp + (r - 1)" using n by (simp add: algebra_simps)
  then have "(n + pp - 1) div pp = (q + 1) + (r - 1) div pp"
    using assms by (metis div_mult_self3 less_numeral_extra(3))
  moreover have "(r - 1) div pp = 0" using r by simp
  ultimately show ?thesis by simp
qed

lemma pages_div:
  assumes "0 < pp"
  shows "\<lceil>real_of_int n / real_of_int pp\<rceil> = (n + pp - 1) div pp"
proof -
  have "\<lceil>real_of_int n / real_of_int pp\<rceil> = - (- n div pp)"
    by (rule ceiling_divide_eq_div)
  with neg_div_neg [OF assms] show ?thesis by simp
qed

lemma page_beyond_empty:
  assumes "0 < pp" and "\<lceil>real_of_int (int (length xs)) / real_of_int pp\<rceil> < pg"
  shows "take (nat pp) (drop (nat ((pg - 1) * pp)) xs) = []"
proof -
  let ?t = "\<lceil>real_of_int (int (length xs)) / real_of_int pp\<rceil>"
  from assms(2) have "\<not> pg - 1 < ?t" by linarith
  with less_pages_iff [OF assms(1), of "pg - 1" "int (length xs)"]
  have "\<not> (pg - 1) * pp < int (length xs)" by blast
  then have "int (length xs) \<le> (pg - 1) * pp" by linarith
  then have "length xs \<le> nat ((pg - 1) * pp)" by simp
  then show ?thesis by simp
qed

lemma page_within_nonempty:
  assumes "0 < pp" and "1 \<le> pg" and "pg \<le> \<lceil>real_of_int (int (length xs)) / real_of_int pp\<rceil>"
  shows "take (nat pp) (drop (nat ((pg - 1) * pp)) xs) \<noteq> []"
proof -
  let ?t = "\<lceil>real_of_int (int (length xs)) / real_of_int pp\<rceil>"
  from assms(3) have "pg - 1 < ?t" by linarith
  with less_pages_iff [OF assms(1), of "pg - 1" "int (length xs)"]
  have lt: "(pg - 1) * pp < int (length xs)" by blast
  from assms have "0 \<le> (pg - 1) * pp" by simp
  with lt have "nat ((pg - 1) * pp) < length xs" by simp
  then have "drop (nat ((pg - 1) * pp)) xs \<noteq> []" by simp
  moreover from assms(1) have "nat pp \<noteq> 0" by simp
  ultimately show ?thesis by simp
qed

text \<open>
  Claim C3. A list query with valid parameters (\<^verbatim>\<open>page\<close> at least 1, \<^verbatim>\<open>per_page\<close> between
  1 and 100) over any number of items is answered, never refused: the response carries
  the number of all items, \<^verbatim>\<open>total_pages = ceil(total / per_page)\<close>, which is
  \<open>(total + per_page - 1) div per_page\<close>, \<^verbatim>\<open>has_next = (page < total_pages)\<close> and
  \<^verbatim>\<open>has_previous = (page > 1)\<close>; the items are empty on a page beyond \<^verbatim>\<open>total_pages\<close>,
  not empty on a page up to it, and never more than \<^verbatim>\<open>per_page\<close>. The totals do not
  depend on the page.
\<close>

theorem pagination_contract:
  assumes "new_PaginationParams a = Inr p"
  shows "\<exists>items r. list_query xs a = Inr (items, r)
     \<and> total r = int (length xs)
     \<and> page r = PaginationParams.page p
     \<and> per_page r = PaginationParams.per_page p
     \<and> total_pages r = \<lceil>real_of_int (total r) / real_of_int (per_page r)\<rceil>
     \<and> total_pages r = (total r + per_page r - 1) div per_page r
     \<and> has_next r = (page r < total_pages r)
     \<and> has_previous r = (1 < page r)
     \<and> (total_pages r < page r \<longrightarrow> items = [])
     \<and> (page r \<le> total_pages r \<longrightarrow> items \<noteq> [])
     \<and> int (length items) \<le> per_page r"
proof -
  let ?pg = "PaginationParams.page p" and ?pp = "PaginationParams.per_page p"
  let ?t = "\<lceil>real_of_int (int (length xs)) / real_of_int ?pp\<rceil>"
  let ?items = "take (nat ?pp) (drop (nat ((?pg - 1) * ?pp)) xs)"
  let ?r = "\<lparr>total = int (length xs), page = ?pg, per_page = ?pp, total_pages = ?t,
            has_next = (?pg < ?t), has_previous = (?pg > 1)\<rparr>"
  from valid_params [OF assms] have pg: "1 \<le> ?pg" and pp: "0 < ?pp" by simp_all
  have q: "list_query xs a = Inr (?items, ?r)"
    using assms by (simp add: list_query_def paginate_def Let_def)
  have d: "?t = (int (length xs) + ?pp - 1) div ?pp" by (rule pages_div [OF pp])
  have e: "?t < ?pg \<longrightarrow> ?items = []" using page_beyond_empty [OF pp] by blast
  have n: "?pg \<le> ?t \<longrightarrow> ?items \<noteq> []" using page_within_nonempty [OF pp pg] by blast
  have l: "int (length ?items) \<le> ?pp" using pp by simp
  from q d e n l show ?thesis by simp
qed

theorem pagination_contract_witness:
  "list_query [1..<26] \<lparr>arg_page = Some 3, arg_per_page = Some 10, arg_order_by = None,
       arg_order = None\<rparr>
     = Inr ([21, 22, 23, 24, 25],
         \<lparr>total = 25, page = 3, per_page = 10, total_pages = 3,
          has_next = False, has_previous = True\<rparr>)
   \<and> list_query [1..<26] \<lparr>arg_page = Some 4, arg_per_page = Some 10, arg_order_by = None,
       arg_order = None\<rparr>
     = Inr ([],
         \<lparr>total = 25, page = 4, per_page = 10, total_pages = 3,
          has_next = False, has_previous = True\<rparr>)"
proof -
  have p: "new_PaginationParams \<lparr>arg_page = Some 3, arg_per_page = Some 10,
       arg_order_by = None, arg_order = None\<rparr>
     = Inr \<lparr>PaginationParams.page = 3, per_page = 10, order_by = ''wp_created_at'',
         order = ''desc''\<rparr>"
    by (simp add: new_PaginationParams_def field_def ge_def le_def)
  have a: "list_query [1..<26] \<lparr>arg_page = Some 3, arg_per_page = Some 10,
       arg_order_by = None, arg_order = None\<rparr>
     = Inr ([21, 22, 23, 24, 25],
         \<lparr>total = 25, page = 3, per_page = 10, total_pages = 3,
          has_next = False, has_previous = True\<rparr>)"
    by code_simp
  have b: "list_query [1..<26] \<lparr>arg_page = Some 4, arg_per_page = Some 10,
       arg_order_by = None, arg_order = None\<rparr>
     = Inr ([],
         \<lparr>total = 25, page = 4, per_page = 10, total_pages = 3,
          has_next = False, has_previous = True\<rparr>)"
    by code_simp
  have q: "new_PaginationParams \<lparr>arg_page = Some 4, arg_per_page = Some 10,
       arg_order_by = None, arg_order = None\<rparr>
     = Inr \<lparr>PaginationParams.page = 4, per_page = 10, order_by = ''wp_created_at'',
         order = ''desc''\<rparr>"
    by (simp add: new_PaginationParams_def field_def ge_def le_def)
  from pagination_contract [OF p, of "[1..<26]"] pagination_contract [OF q, of "[1..<26]"] a b
  show ?thesis by simp
qed

section \<open>Properties of the response cache\<close>

lemma release_acquire: "release k (acquire k c) = c"
  by (simp add: release_def acquire_def)

lemma release_store_acquire:
  "release k (cache_store k e (acquire k c)) = cache_store k e c"
  by (simp add: release_def acquire_def cache_store_def)

lemma cache_read_Some:
  "cache_read c k now = Some d \<longleftrightarrow> (\<exists>e. entries c k = Some e \<and> \<not> expired now e \<and> data e = d)"
  by (auto simp: cache_read_def split: option.splits)

lemma cache_read_None:
  "cache_read c k now = None \<longleftrightarrow> (case entries c k of None \<Rightarrow> True | Some e \<Rightarrow> expired now e)"
  by (auto simp: cache_read_def split: option.splits)

lemma expired_later: "expired now e \<Longrightarrow> now \<le> now' \<Longrightarrow> expired now' e"
  by (auto simp: expired_def split: option.splits)

lemma cache_read_None_later:
  "cache_read c k now = None \<Longrightarrow> now \<le> now' \<Longrightarrow> cache_read c k now' = None"
  by (auto simp: cache_read_None split: option.splits dest: expired_later)

lemma get_or_compute_hit:
  "cache_read c k now = Some d \<Longrightarrow> get_or_compute k ttl f now (c, w) = Some (Inr d, c, w)"
  by (simp add: get_or_compute_def)

lemma get_or_compute_miss:
  assumes "cache_read c k now = None" and "k \<notin> set (in_flight c)"
  shows "get_or_compute k ttl f now (c, w) =
    (case f w of
       (Inl failure, w') \<Rightarrow> Some (Inl failure, c, w')
     | (Inr d, w') \<Rightarrow> Some (Inr d, cache_store k (new_entry k ttl now d) c, w'))"
  using assms
  by (simp add: get_or_compute_def release_acquire release_store_acquire Let_def
      split: prod.splits sum.splits)

lemma fresh_entry_read:
  assumes "now \<le> now'" and "ttl = 0 \<or> now' \<le> now + ttl"
  shows "cache_read (cache_store k (new_entry k ttl now d) c) k now' = Some d"
  using assms
  by (auto simp: cache_read_def cache_store_def new_entry_def expired_def)

text \<open>
  Claim C2. When the entry of the fingerprint is present and not expired,
  \<^verbatim>\<open>get_or_compute\<close> returns its data and changes neither the cache nor the world: the
  compute function is not invoked. When there is no entry or it is expired (and the lock
  is free) and the compute function succeeds, the result is returned and stored under the
  fingerprint with \<^verbatim>\<open>expires_at = now + ttl\<close>, or with no \<^verbatim>\<open>expires_at\<close> when \<^verbatim>\<open>ttl\<close> is 0,
  the world changed by that one invocation. A second call with the same fingerprint
  before the expiry returns the same payload and leaves cache and world as the first call
  left them: of the two calls, only the first invoked a compute function, once.
\<close>

theorem get_or_compute_contract:
  "(entries c k = Some e \<and> \<not> expired now e \<longrightarrow>
      get_or_compute k ttl f now (c, w) = Some (Inr (data e), c, w))
   \<and> ((entries c k = None \<or> (\<exists>e. entries c k = Some e \<and> expired now e))
       \<and> k \<notin> set (in_flight c) \<and> f w = (Inr d, w') \<longrightarrow>
      get_or_compute k ttl f now (c, w) =
        Some (Inr d,
          c\<lparr>entries := (entries c)(k \<mapsto>
              \<lparr>cache_key = k, data = d,
               expires_at = (if ttl = 0 then None else Some (now + ttl)),
               created_at = now, updated_at = now\<rparr>)\<rparr>,
          w')
      \<and> (now \<le> now' \<and> (ttl = 0 \<or> now' \<le> now + ttl) \<longrightarrow>
           get_or_compute k ttl' g now'
             (c\<lparr>entries := (entries c)(k \<mapsto>
                 \<lparr>cache_key = k, data = d,
                  expires_at = (if ttl = 0 then None else Some (now + ttl)),
                  created_at = now, updated_at = now\<rparr>)\<rparr>,
              w')
           = Some (Inr d,
               c\<lparr>entries := (entries c)(k \<mapsto>
                 \<lparr>cache_key = k, data = d,
                  expires_at = (if ttl = 0 then None else Some (now + ttl)),
                  created_at = now, updated_at = now\<rparr>)\<rparr>,
               w')))"
proof (intro conjI impI)
  assume "entries c k = Some e \<and> \<not> expired now e"
  then have "cache_read c k now = Some (data e)" by (auto simp: cache_read_Some)
  then show "get_or_compute k ttl f now (c, w) = Some (Inr (data e), c, w)"
    by (rule get_or_compute_hit)
next
  assume a: "(entries c k = None \<or> (\<exists>e. entries c k = Some e \<and> expired now e))
       \<and> k \<notin> set (in_flight c) \<and> f w = (Inr d, w')"
  let ?c' = "c\<lparr>entries := (entries c)(k \<mapsto>
              \<lparr>cache_key = k, data = d,
               expires_at = (if ttl = 0 then None else Some (now + ttl)),
               created_at = now, updated_at = now\<rparr>)\<rparr>"
  have s: "cache_store k (new_entry k ttl now d) c = ?c'"
    by (simp add: cache_store_def new_entry_def)
  from a have m: "cache_read c k now = None" by (auto simp: cache_read_None)
  from a have l: "k \<notin> set (in_flight c)" and r: "f w = (Inr d, w')" by simp_all
  from get_or_compute_miss [OF m l, of ttl f w] r s
  show "get_or_compute k ttl f now (c, w) = Some (Inr d, ?c', w')" by simp
  assume t: "now \<le> now' \<and> (ttl = 0 \<or> now' \<le> now + ttl)"
  then have "cache_read (cache_store k (new_entry k ttl now d) c) k now' = Some d"
    by (intro fresh_entry_read) simp_all
  then have "cache_read ?c' k now' = Some d" by (simp only: s)
  then show "get_or_compute k ttl' g now' (?c', w') = Some (Inr d, ?c', w')"
    by (rule get_or_compute_hit)
qed

theorem get_or_compute_contract_witness:
  "get_or_compute ''posts'' 60 (counting (Inr ''payload'' :: unit + string)) 100 (empty_cache, 0)
     = Some (Inr ''payload'',
         empty_cache\<lparr>entries := (entries empty_cache)(''posts'' \<mapsto>
           \<lparr>cache_key = ''posts'', data = ''payload'', expires_at = Some 160,
            created_at = 100, updated_at = 100\<rparr>)\<rparr>,
         1)
   \<and> get_or_compute ''posts'' 60 (counting (Inr ''other'' :: unit + string)) 130
       (empty_cache\<lparr>entries := (entries empty_cache)(''posts'' \<mapsto>
           \<lparr>cache_key = ''posts'', data = ''payload'', expires_at = Some 160,
            created_at = 100, updated_at = 100\<rparr>)\<rparr>,
        1)
     = Some (Inr ''payload'',
         empty_cache\<lparr>entries := (entries empty_cache)(''posts'' \<mapsto>
           \<lparr>cache_key = ''posts'', data = ''payload'', expires_at = Some 160,
            created_at = 100, updated_at = 100\<rparr>)\<rparr>,
         1)
   \<and> get_or_compute ''posts'' 0 (counting (Inr ''payload'' :: unit + string)) 100 (empty_cache, 0)
     = Some (Inr ''payload'',
         empty_cache\<lparr>entries := (entries empty_cache)(''posts'' \<mapsto>
           \<lparr>cache_key = ''posts'', data = ''payload'', expires_at = None,
            created_at = 100, updated_at = 100\<rparr>)\<rparr>,
         1)"
proof -
  let ?e = "\<lparr>cache_key = ''posts'', data = ''payload'', expires_at = Some 160,
            created_at = 100, updated_at = 100\<rparr>"
  let ?c = "empty_cache\<lparr>entries := (entries empty_cache)(''posts'' \<mapsto> ?e)\<rparr>"
  have m: "(entries (empty_cache :: string cache) ''posts'' = None
        \<or> (\<exists>e. entries (empty_cache :: string cache) ''posts'' = Some e \<and> expired 100 e))
      \<and> ''posts'' \<notin> set (in_flight (empty_cache :: string cache))
      \<and> counting (Inr ''payload'' :: unit + string) 0 = (Inr ''payload'', 1)"
    by (simp add: empty_cache_def counting_def)
  from get_or_compute_contract [where c = "empty_cache" and k = "''posts''" and now = 100
      and ttl = 60 and f = "counting (Inr ''payload'' :: unit + string)" and w = 0
      and d = "''payload''" and w' = 1 and now' = 130 and ttl' = 60
      and g = "counting (Inr ''other'' :: unit + string)" and e = "?e"] m
  have a: "get_or_compute ''posts'' 60 (counting (Inr ''payload'' :: unit + string)) 100
      (empty_cache, 0) = Some (Inr ''payload'', ?c, 1)"
    and b: "get_or_compute ''posts'' 60 (counting (Inr ''other'' :: unit + string)) 130 (?c, 1)
      = Some (Inr ''payload'', ?c, 1)"
    by simp_all
  from get_or_compute_contract [where c = "empty_cache" and k = "''posts''" and now = 100
      and ttl = 0 and f = "counting (Inr ''payload'' :: unit + string)" and w = 0
      and d = "''payload''" and w' = 1 and now' = 100 and ttl' = 0 and e = "?e"
      and g = "counting (Inr ''other'' :: unit + string)"] m
  have z: "get_or_compute ''posts'' 0 (counting (Inr ''payload'' :: unit + string)) 100
      (empty_cache, 0)
     = Some (Inr ''payload'',
         empty_cache\<lparr>entries := (entries empty_cache)(''posts'' \<mapsto>
           \<lparr>cache_key = ''posts'', data = ''payload'', expires_at = None,
            created_at = 100, updated_at = 100\<rparr>)\<rparr>,
         1)"
    by simp
  have h: "entries ?c ''posts'' = Some ?e \<and> \<not> expired 130 ?e"
    by (simp add: expired_def)
  from get_or_compute_contract [where c = "?c" and k = "''posts''" and now = 130
      and e = "?e" and ttl = 60 and f = "counting (Inr ''other'' :: unit + string)" and w = 1
      and d = "''other''" and w' = 2 and now' = 130 and ttl' = 60
      and g = "counting (Inr ''other'' :: unit + string)"] h
  have b': "get_or_compute ''posts'' 60 (counting (Inr ''other'' :: unit + string)) 130 (?c, 1)
      = Some (Inr ''payload'', ?c, 1)"
    by simp
  from a b b' z show ?thesis by simp
qed

text \<open>
  Claim C8. When the compute function fails on a miss, \<^verbatim>\<open>get_or_compute\<close> returns that
  failure as it is and leaves the cache as it found it: no entry is written, that of the
  fingerprint included, and the lock of the fingerprint, taken for the computation, is
  free again. A retry at a later instant is therefore not blocked: it returns, with the
  outcome of its own compute function.
\<close>

theorem compute_failure_propagates:
  "(entries c k = None \<or> (\<exists>e. entries c k = Some e \<and> expired now e))
     \<and> k \<notin> set (in_flight c) \<and> f w = (Inl failure, w') \<longrightarrow>
   get_or_compute k ttl f now (c, w) = Some (Inl failure, c, w')
   \<and> k \<notin> set (in_flight c)
   \<and> (now \<le> now' \<longrightarrow>
        get_or_compute k ttl' g now' (c, w') =
          (case g w' of
             (Inl failure', w'') \<Rightarrow> Some (Inl failure', c, w'')
           | (Inr d, w'') \<Rightarrow> Some (Inr d, cache_store k (new_entry k ttl' now' d) c, w''))
        \<and> get_or_compute k ttl' g now' (c, w') \<noteq> None)"
proof (intro impI conjI)
  assume a: "(entries c k = None \<or> (\<exists>e. entries c k = Some e \<and> expired now e))
     \<and> k \<notin> set (in_flight c) \<and> f w = (Inl failure, w')"
  then have m: "cache_read c k now = None" by (auto simp: cache_read_None)
  from a show l: "k \<notin> set (in_flight c)" by simp
  from a have r: "f w = (Inl failure, w')" by simp
  from get_or_compute_miss [OF m l, of ttl f w] r
  show "get_or_compute k ttl f now (c, w) = Some (Inl failure, c, w')" by simp
  assume "now \<le> now'"
  with m have m': "cache_read c k now' = None" by (rule cache_read_None_later)
  from get_or_compute_miss [OF m' l, of ttl' g w']
  show g: "get_or_compute k ttl' g now' (c, w') =
          (case g w' of
             (Inl failure', w'') \<Rightarrow> Some (Inl failure', c, w'')
           | (Inr d, w'') \<Rightarrow> Some (Inr d, cache_store k (new_entry k ttl' now' d) c, w''))" .
  show "get_or_compute k ttl' g now' (c, w') \<noteq> None"
    by (simp add: g split: prod.splits sum.splits)
qed

theorem compute_failure_propagates_witness:
  "get_or_compute ''posts'' 60 (counting (Inl ''store unreachable'' :: string + string)) 100
      (empty_cache, 0)
     = Some (Inl ''store unreachable'', empty_cache, 1)
   \<and> get_or_compute ''posts'' 60 (counting (Inr ''payload'' :: string + string)) 101
      (empty_cache, 1)
     = Some (Inr ''payload'',
         cache_store ''posts'' (new_entry ''posts'' 60 101 ''payload'') empty_cache, 2)"
proof -
  have m: "(entries (empty_cache :: string cache) ''posts'' = None
        \<or> (\<exists>e. entries (empty_cache :: string cache) ''posts'' = Some e \<and> expired 100 e))
      \<and> ''posts'' \<notin> set (in_flight (empty_cache :: string cache))
      \<and> counting (Inl ''store unreachable'' :: string + string) 0
          = (Inl ''store unreachable'', 1)"
    by (simp add: empty_cache_def counting_def)
  from compute_failure_propagates [where c = "empty_cache" and k = "''posts''" and now = 100
      and ttl = 60 and f = "counting (Inl ''store unreachable'' :: string + string)" and w = 0
      and failure = "''store unreachable''" and w' = 1 and now' = 101 and ttl' = 60
      and g = "counting (Inr ''payload'' :: string + string)"] m
  show ?thesis by (simp add: counting_def)
qed

section \<open>Properties of the Hierarchy Resolver\<close>

subsection \<open>The walk\<close>

lemma walk_Nil: "walk ns visited [] = ([], visited)"
  by simp

lemma walk_seen: "node_id n \<in> set visited \<Longrightarrow> walk ns visited (n # siblings) = walk ns visited siblings"
  by simp

lemma walk_enter:
  assumes "node_id n \<notin> set visited"
    and "walk ns (node_id n # visited) (children_of ns (node_id n)) = (below, visited1)"
    and "walk ns visited1 siblings = (beside, visited2)"
  shows "walk ns visited (n # siblings) = (Node n below # beside, visited2)"
  using assms by simp

text \<open>An induction rule for the walk that names the results of the two inner walks.\<close>

lemma walk_induct [consumes 1, case_names Nil Seen Enter]:
  assumes w: "walk ns visited wl = (ts, visited')"
    and nil: "\<And>visited. P visited [] [] visited"
    and seen: "\<And>visited n siblings ts visited'.
        node_id n \<in> set visited \<Longrightarrow> walk ns visited siblings = (ts, visited')
        \<Longrightarrow> P visited siblings ts visited' \<Longrightarrow> P visited (n # siblings) ts visited'"
    and enter: "\<And>visited n siblings below visited1 beside visited2.
        node_id n \<notin> set visited
        \<Longrightarrow> walk ns (node_id n # visited) (children_of ns (node_id n)) = (below, visited1)
        \<Longrightarrow> walk ns visited1 siblings = (beside, visited2)
        \<Longrightarrow> P (node_id n # visited) (children_of ns (node_id n)) below visited1
        \<Longrightarrow> P visited1 siblings beside visited2
        \<Longrightarrow> P visited (n # siblings) (Node n below # beside) visited2"
  shows "P visited wl ts visited'"
proof -
  have "ns' = ns \<longrightarrow> (\<forall>ts visited'. walk ns visited wl = (ts, visited') \<longrightarrow> P visited wl ts visited')"
    for ns'
  proof (induction ns' visited wl rule: walk.induct)
    case (1 ns' visited)
    show ?case using nil by simp
  next
    case (2 ns' visited n siblings)
    show ?case
    proof (intro impI allI)
      fix ts visited'
      assume e: "ns' = ns" and r: "walk ns visited (n # siblings) = (ts, visited')"
      show "P visited (n # siblings) ts visited'"
      proof (cases "node_id n \<in> set visited")
        case True
        with r have w: "walk ns visited siblings = (ts, visited')" by simp
        from 2(1) [OF True] e w have "P visited siblings ts visited'" by simp
        from seen [OF True w this] show ?thesis .
      next
        case False
        obtain below visited1 where
          b: "walk ns (node_id n # visited) (children_of ns (node_id n)) = (below, visited1)"
          by (cases "walk ns (node_id n # visited) (children_of ns (node_id n))")
        obtain beside visited2 where s: "walk ns visited1 siblings = (beside, visited2)"
          by (cases "walk ns visited1 siblings")
        from walk_enter [OF False b s] r
        have eq: "ts = Node n below # beside" "visited' = visited2" by simp_all
        from 2(2) [OF False] e b
        have p1: "P (node_id n # visited) (children_of ns (node_id n)) below visited1"
          by simp
        from b e have b': "(below, visited1)
            = walk ns' (node_id n # visited) (children_of ns' (node_id n))"
          by simp
        from 2(3) [OF False b'] e s have p2: "P visited1 siblings beside visited2"
          by simp
        from enter [OF False b s p1 p2] show ?thesis by (simp only: eq)
      qed
    qed
  qed
  with w show ?thesis by simp
qed

subsection \<open>What a walk visits\<close>

lemma forest_nodes_Nil [simp]: "forest_nodes [] = []"
  by (simp add: forest_nodes_def)

lemma forest_nodes_Cons [simp]:
  "forest_nodes (Node n below # ts) = n # forest_nodes below @ forest_nodes ts"
  by (simp add: forest_nodes_def)

lemma forest_nodes_append [simp]:
  "forest_nodes (ts @ us) = forest_nodes ts @ forest_nodes us"
  by (simp add: forest_nodes_def)

lemma forest_nodes_leaves [simp]: "forest_nodes (map (\<lambda>n. Node n []) ns) = ns"
  by (induction ns) (simp_all add: forest_nodes_def)

lemma ids_simps [simp]:
  "ids [] = []" "ids (n # ns) = node_id n # ids ns" "ids (ns @ ms) = ids ns @ ids ms"
  by (simp_all add: ids_def)

lemma walk_visited:
  assumes "walk ns visited wl = (ts, visited')"
  shows "set visited' = set visited \<union> set (ids (forest_nodes ts))"
  using assms by (induction rule: walk_induct) auto

lemma walk_distinct:
  assumes "walk ns visited wl = (ts, visited')"
  shows "distinct (ids (forest_nodes ts)) \<and> set (ids (forest_nodes ts)) \<inter> set visited = {}"
  using assms
proof (induction rule: walk_induct)
  case (Nil visited)
  show ?case by simp
next
  case (Seen visited n siblings ts visited')
  then show ?case by simp
next
  case (Enter visited n siblings below visited1 beside visited2)
  from walk_visited [OF Enter(2)]
  have v1: "set visited1 = insert (node_id n) (set visited) \<union> set (ids (forest_nodes below))"
    by simp
  from Enter(4) have b: "distinct (ids (forest_nodes below))"
    and bn: "node_id n \<notin> set (ids (forest_nodes below))"
    and bv: "set (ids (forest_nodes below)) \<inter> set visited = {}" by auto
  from Enter(5) v1 have s: "distinct (ids (forest_nodes beside))"
    and sn: "node_id n \<notin> set (ids (forest_nodes beside))"
    and sv: "set (ids (forest_nodes beside)) \<inter> set visited = {}"
    and sb: "set (ids (forest_nodes beside)) \<inter> set (ids (forest_nodes below)) = {}" by auto
  from b bn bv s sn sv sb Enter(1) show ?case by auto
qed

lemma walk_covers:
  assumes "walk ns visited wl = (ts, visited')"
  shows "set visited \<union> set (ids wl) \<subseteq> set visited'"
  using assms by (induction rule: walk_induct) auto

lemma walk_nodes_subset:
  assumes "walk ns visited wl = (ts, visited')"
  shows "set (forest_nodes ts) \<subseteq> set wl \<union> set ns"
  using assms
proof (induction rule: walk_induct)
  case (Enter visited n siblings below visited1 beside visited2)
  with children_of_subset [of ns "node_id n"] show ?case by auto
qed auto

lemma walk_anchored:
  assumes "walk ns visited wl = (ts, visited')"
  shows "(\<forall>n \<in> set wl. anchored ns n) \<longrightarrow> (\<forall>m \<in> set (forest_nodes ts). anchored ns m)"
  using assms
proof (induction rule: walk_induct)
  case (Nil visited)
  show ?case by simp
next
  case (Seen visited n siblings ts visited')
  then show ?case by simp
next
  case (Enter visited n siblings below visited1 beside visited2)
  show ?case
  proof (intro impI ballI)
    fix m
    assume a: "\<forall>m \<in> set (n # siblings). anchored ns m"
      and m: "m \<in> set (forest_nodes (Node n below # beside))"
    from a have n: "anchored ns n" by simp
    have c: "\<forall>m \<in> set (children_of ns (node_id n)). anchored ns m"
    proof
      fix c
      assume "c \<in> set (children_of ns (node_id n))"
      then have "c \<in> set ns" and "parent_id c = Some (node_id n)"
        by (auto simp: children_of_def set_ordered)
      then show "anchored ns c" by (rule anchored.child [OF n])
    qed
    from Enter(4) c have b: "\<forall>m \<in> set (forest_nodes below). anchored ns m" by (rule mp)
    from a have "\<forall>m \<in> set siblings. anchored ns m" by simp
    with Enter(5) have s: "\<forall>m \<in> set (forest_nodes beside). anchored ns m" by (rule mp)
    from m have "m = n \<or> m \<in> set (forest_nodes below) \<or> m \<in> set (forest_nodes beside)"
      by auto
    with n b s show "anchored ns m" by blast
  qed
qed

lemma inner_nodes_simps [simp]:
  "inner_nodes [] = []"
  "inner_nodes (Node n below # ts) = forest_nodes below @ inner_nodes ts"
  by (simp_all add: inner_nodes_def)

lemma forest_nodes_split:
  "set (forest_nodes ts) = entity ` set ts \<union> set (inner_nodes ts)"
proof (induction ts)
  case Nil
  show ?case by simp
next
  case (Cons t ts)
  then show ?case by (cases t) auto
qed

lemma walk_roots:
  assumes "walk ns visited wl = (ts, visited')"
  shows "entity ` set ts \<subseteq> set wl"
  using assms by (induction rule: walk_induct) auto

lemma walk_inner:
  assumes "walk ns visited wl = (ts, visited')"
  shows "set wl \<subseteq> set ns \<longrightarrow> (\<forall>m \<in> set (inner_nodes ts). \<not> declared_root ns m)"
  using assms
proof (induction rule: walk_induct)
  case (Nil visited)
  show ?case by simp
next
  case (Seen visited n siblings ts visited')
  then show ?case by simp
next
  case (Enter visited n siblings below visited1 beside visited2)
  show ?case
  proof (intro impI)
    assume sub: "set (n # siblings) \<subseteq> set ns"
    then have n: "node_id n \<in> set (ids ns)" by (auto simp: ids_def)
    have c: "\<not> declared_root ns m" if "m \<in> set (children_of ns (node_id n))" for m
    proof -
      from that have "parent_id m = Some (node_id n)"
        by (auto simp: children_of_def set_ordered)
      with n show ?thesis by (simp add: declared_root_def)
    qed
    from walk_roots [OF Enter(2)] c have r: "\<forall>m \<in> entity ` set below. \<not> declared_root ns m"
      by blast
    from Enter(4) children_of_subset [of ns "node_id n"]
    have i: "\<forall>m \<in> set (inner_nodes below). \<not> declared_root ns m" by simp
    from r i have "\<forall>m \<in> set (forest_nodes below). \<not> declared_root ns m"
      by (simp only: forest_nodes_split) blast
    moreover from Enter(5) sub have "\<forall>m \<in> set (inner_nodes beside). \<not> declared_root ns m"
      by simp
    ultimately show "\<forall>m \<in> set (inner_nodes (Node n below # beside)). \<not> declared_root ns m"
      by auto
  qed
qed

subsection \<open>Links and paths of a forest\<close>

lemma distinct_ids_ordered_filter:
  assumes "distinct (ids ns)"
  shows "distinct (ids (ordered (filter P ns)))"
proof -
  from assms have "distinct (map node_id (filter P ns))"
    unfolding ids_def by (rule distinct_map_filter)
  then have "distinct (filter P ns)" and "inj_on node_id (set (filter P ns))"
    by (simp_all add: distinct_map)
  then show ?thesis by (simp add: ids_def ordered_def distinct_map)
qed

lemma same_id_same_node:
  assumes "distinct (ids ns)" and "n \<in> set ns" and "m \<in> set ns" and "node_id m = node_id n"
  shows "m = n"
proof -
  from assms(1) have "inj_on node_id (set ns)" by (simp add: ids_def distinct_map)
  with assms(2-4) show ?thesis by (simp add: inj_on_def)
qed

lemma links_ids: "map fst (links p t) = ids (nodes_of t)"
proof (induction t arbitrary: p)
  case (Node n ts)
  have "map fst (concat (map (links q) ts)) = ids (concat (map nodes_of ts))" for q
    using Node by (induction ts) (simp_all add: ids_def)
  then show ?case by (simp add: ids_def)
qed

lemma forest_links_ids: "map fst (forest_links ts) = ids (forest_nodes ts)"
  by (induction ts) (simp_all add: forest_links_def forest_nodes_def links_ids ids_def)

lemma ids_part_subset:
  "c \<in> set ts \<Longrightarrow> set (ids (nodes_of c)) \<subseteq> set (ids (concat (map nodes_of ts)))"
  by (induction ts) (auto simp: ids_def)

lemma paths_subset: "q \<in> set (paths t) \<Longrightarrow> set q \<subseteq> set (ids (nodes_of t))"
proof (induction t arbitrary: q)
  case (Node n ts)
  from Node.prems consider "q = [node_id n]"
    | c r where "c \<in> set ts" and "r \<in> set (paths c)" and "q = node_id n # r"
    by auto
  then show ?case
  proof cases
    case 1
    then show ?thesis by simp
  next
    case 2
    from Node.IH [OF 2(1) 2(2)] have "set r \<subseteq> set (ids (nodes_of c))" .
    with ids_part_subset [OF 2(1)]
    have "set r \<subseteq> set (ids (concat (map nodes_of ts)))" by blast
    with 2(3) show ?thesis by auto
  qed
qed

lemma distinct_ids_part:
  "distinct (ids (concat (map nodes_of ts))) \<Longrightarrow> c \<in> set ts \<Longrightarrow> distinct (ids (nodes_of c))"
  by (induction ts) (auto simp: ids_def)

lemma paths_distinct:
  "q \<in> set (paths t) \<Longrightarrow> distinct (ids (nodes_of t)) \<Longrightarrow> distinct q"
proof (induction t arbitrary: q)
  case (Node n ts)
  from Node.prems(1) consider "q = [node_id n]"
    | c r where "c \<in> set ts" and "r \<in> set (paths c)" and "q = node_id n # r"
    by auto
  then show ?case
  proof cases
    case 1
    then show ?thesis by simp
  next
    case 2
    from Node.prems(2) have d: "distinct (ids (concat (map nodes_of ts)))"
      and x: "node_id n \<notin> set (ids (concat (map nodes_of ts)))" by simp_all
    from distinct_ids_part [OF d 2(1)] have "distinct (ids (nodes_of c))" .
    with Node.IH [OF 2(1) 2(2)] have r: "distinct r" .
    from paths_subset [OF 2(2)] ids_part_subset [OF 2(1)]
    have "set r \<subseteq> set (ids (concat (map nodes_of ts)))" by (rule subset_trans)
    with x have "node_id n \<notin> set r" by blast
    with r 2(3) show ?thesis by simp
  qed
qed

lemma forest_paths_distinct:
  assumes "distinct (ids (forest_nodes ts))" and "q \<in> set (forest_paths ts)"
  shows "distinct q"
proof -
  from assms(2) obtain t where t: "t \<in> set ts" and q: "q \<in> set (paths t)"
    by (auto simp: forest_paths_def)
  from assms(1) t have "distinct (ids (nodes_of t))"
    unfolding forest_nodes_def by (rule distinct_ids_part)
  with q show ?thesis by (rule paths_distinct)
qed

subsection \<open>The resolved forest\<close>

lemma resolve_parts:
  obtains attached visited where
    "walk ns [] (ordered (filter (declared_root ns) ns)) = (attached, visited)"
    and "forest (resolve ns)
         = attached @ map (\<lambda>n. Node n []) (ordered (filter (\<lambda>n. node_id n \<notin> set visited) ns))"
    and "demoted (resolve ns)
         = ids (ordered (filter (dangling ns) ns))
           @ ids (ordered (filter (\<lambda>n. node_id n \<notin> set visited) ns))"
proof -
  obtain attached visited where
    w: "walk ns [] (ordered (filter (declared_root ns) ns)) = (attached, visited)"
    by (cases "walk ns [] (ordered (filter (declared_root ns) ns))")
  show ?thesis
    by (rule that [OF w]) (simp_all add: resolve_def w Let_def)
qed

lemma dangling_declared_root: "dangling ns n \<Longrightarrow> declared_root ns n"
  by (auto simp: dangling_def declared_root_def split: option.splits)

lemma entity_leaves: "entity ` set (map (\<lambda>n. Node n []) ns) = set ns"
  by (auto simp: image_iff)

lemma inner_nodes_append: "inner_nodes (ts @ us) = inner_nodes ts @ inner_nodes us"
  by (simp add: inner_nodes_def)

text \<open>
  Claim C1. For every set of nodes with pairwise different identifiers (the identifier is
  the primary key), whatever their parent pointers are, cycles and missing parents
  included, the resolver returns a forest in which every input node occurs exactly once:
  the nodes of the forest are the input nodes, no identifier occurs twice, and there are
  as many as in the input. So no node has two parents (every identifier has one link, to
  its parent or to none) and no path from a root downwards revisits a node. A node whose
  parent is missing, and a node that is reachable through a cycle only, is a root of the
  forest and is listed among the demoted nodes.
\<close>

theorem hierarchy_forest:
  assumes "distinct (ids ns)"
  shows "set (forest_nodes (forest (resolve ns))) = set ns
    \<and> distinct (ids (forest_nodes (forest (resolve ns))))
    \<and> length (forest_nodes (forest (resolve ns))) = length ns
    \<and> distinct (map fst (forest_links (forest (resolve ns))))
    \<and> (\<forall>q \<in> set (forest_paths (forest (resolve ns))). distinct q)
    \<and> (\<forall>n \<in> set ns. dangling ns n \<or> \<not> anchored ns n \<longrightarrow>
          n \<in> entity ` set (forest (resolve ns)) \<and> node_id n \<in> set (demoted (resolve ns)))"
proof -
  let ?roots = "ordered (filter (declared_root ns) ns)"
  obtain attached visited where
    w: "walk ns [] ?roots = (attached, visited)"
    and f: "forest (resolve ns)
         = attached @ map (\<lambda>n. Node n []) (ordered (filter (\<lambda>n. node_id n \<notin> set visited) ns))"
    and d: "demoted (resolve ns)
         = ids (ordered (filter (dangling ns) ns))
           @ ids (ordered (filter (\<lambda>n. node_id n \<notin> set visited) ns))"
    by (rule resolve_parts)
  let ?unreached = "ordered (filter (\<lambda>n. node_id n \<notin> set visited) ns)"
  let ?all = "forest_nodes (forest (resolve ns))"
  have all: "?all = forest_nodes attached @ ?unreached" by (simp add: f)
  have roots_sub: "set ?roots \<subseteq> set ns" by (auto simp: set_ordered)
  from walk_visited [OF w] have vis: "set visited = set (ids (forest_nodes attached))" by simp
  from walk_distinct [OF w] have dist_att: "distinct (ids (forest_nodes attached))" by simp
  from walk_nodes_subset [OF w] roots_sub have att_sub: "set (forest_nodes attached) \<subseteq> set ns"
    by blast
  have unr: "set ?unreached = {n \<in> set ns. node_id n \<notin> set visited}"
    by (auto simp: set_ordered)
  have found: "n \<in> set (forest_nodes attached)"
    if "n \<in> set ns" and "node_id n \<in> set visited" for n
  proof -
    from that(2) vis obtain m where m: "m \<in> set (forest_nodes attached)"
      and e: "node_id m = node_id n" by (auto simp: ids_def)
    from m att_sub have "m \<in> set ns" by blast
    with assms that(1) e have "m = n" by (intro same_id_same_node)
    with m show ?thesis by simp
  qed
  have set_eq: "set ?all = set ns"
  proof
    show "set ?all \<subseteq> set ns" using att_sub unr by (auto simp: all)
    show "set ns \<subseteq> set ?all"
    proof
      fix n assume n: "n \<in> set ns"
      show "n \<in> set ?all"
      proof (cases "node_id n \<in> set visited")
        case True
        with n have "n \<in> set (forest_nodes attached)" by (rule found)
        then show ?thesis by (simp add: all)
      next
        case False
        with n unr show ?thesis by (simp add: all)
      qed
    qed
  qed
  have dist_unr: "distinct (ids ?unreached)"
    using assms by (rule distinct_ids_ordered_filter)
  have disj: "set (ids (forest_nodes attached)) \<inter> set (ids ?unreached) = {}"
  proof -
    have h: "node_id n \<notin> set (ids (forest_nodes attached))" if "n \<in> set ?unreached" for n
      using that unr vis by simp
    show ?thesis
    proof (rule equals0I)
      fix i
      assume "i \<in> set (ids (forest_nodes attached)) \<inter> set (ids ?unreached)"
      then have a: "i \<in> set (ids (forest_nodes attached))" and "i \<in> set (ids ?unreached)"
        by simp_all
      then obtain n where "n \<in> set ?unreached" and "node_id n = i"
        by (auto simp: ids_def)
      with h [of n] a show False by simp
    qed
  qed
  from dist_att dist_unr disj have dist_all: "distinct (ids ?all)" by (simp add: all)
  have len: "length ?all = length ns"
  proof -
    from dist_all have "distinct ?all" by (simp add: ids_def distinct_map)
    then have "length ?all = card (set ?all)" by (simp add: distinct_card)
    also have "\<dots> = card (set ns)" by (simp only: set_eq)
    also from assms have "\<dots> = length ns" by (simp add: ids_def distinct_map distinct_card)
    finally show ?thesis .
  qed
  from dist_all have lnk: "distinct (map fst (forest_links (forest (resolve ns))))"
    by (simp only: forest_links_ids)
  from dist_all have pth: "\<forall>q \<in> set (forest_paths (forest (resolve ns))). distinct q"
    by (blast intro: forest_paths_distinct)
  have dem: "\<forall>n \<in> set ns. dangling ns n \<or> \<not> anchored ns n \<longrightarrow>
          n \<in> entity ` set (forest (resolve ns)) \<and> node_id n \<in> set (demoted (resolve ns))"
  proof (intro ballI impI)
    fix n
    assume n: "n \<in> set ns" and c: "dangling ns n \<or> \<not> anchored ns n"
    from c show "n \<in> entity ` set (forest (resolve ns)) \<and> node_id n \<in> set (demoted (resolve ns))"
    proof
      assume dg: "dangling ns n"
      then have r: "declared_root ns n" by (rule dangling_declared_root)
      with n have "n \<in> set ?roots" by (simp add: set_ordered)
      with walk_covers [OF w] have "node_id n \<in> set visited" by (auto simp: ids_def)
      with n have at: "n \<in> set (forest_nodes attached)" by (rule found)
      from walk_inner [OF w] roots_sub
      have "\<forall>m \<in> set (inner_nodes attached). \<not> declared_root ns m" by (rule mp)
      with r have "n \<notin> set (inner_nodes attached)" by blast
      with at have "n \<in> entity ` set attached" by (simp add: forest_nodes_split)
      then have 1: "n \<in> entity ` set (forest (resolve ns))" by (auto simp: f)
      from n dg have "n \<in> set (ordered (filter (dangling ns) ns))" by (simp add: set_ordered)
      then have "node_id n \<in> set (demoted (resolve ns))" by (simp add: d ids_def)
      with 1 show ?thesis by simp
    next
      assume na: "\<not> anchored ns n"
      have "\<forall>m \<in> set ?roots. anchored ns m"
        by (auto simp: set_ordered intro: anchored.root)
      with walk_anchored [OF w] have an: "\<forall>m \<in> set (forest_nodes attached). anchored ns m"
        by (rule mp)
      have "node_id n \<notin> set visited"
      proof
        assume "node_id n \<in> set visited"
        with n have "n \<in> set (forest_nodes attached)" by (rule found)
        with an na show False by blast
      qed
      with n unr have u: "n \<in> set ?unreached" by simp
      then have "Node n [] \<in> set (forest (resolve ns))" by (simp add: f)
      then have 1: "n \<in> entity ` set (forest (resolve ns))" by force
      from u have "node_id n \<in> set (demoted (resolve ns))" by (simp add: d ids_def)
      with 1 show ?thesis by simp
    qed
  qed
  from set_eq dist_all len lnk pth dem show ?thesis by blast
qed

lemma cycle_not_anchored:
  "anchored [hn 1 (Some 2) 0, hn 2 (Some 1) 0] n \<Longrightarrow> False"
  by (induction rule: anchored.induct) (auto simp: declared_root_def hn_def ids_def)

theorem hierarchy_forest_witness:
  "resolve [hn 1 (Some 2) 0, hn 2 (Some 1) 0]
     = \<lparr>forest = [Node (hn 1 (Some 2) 0) [], Node (hn 2 (Some 1) 0) []], demoted = [1, 2]\<rparr>
   \<and> forest_nodes (forest (resolve [hn 1 (Some 2) 0, hn 2 (Some 1) 0]))
     = [hn 1 (Some 2) 0, hn 2 (Some 1) 0]
   \<and> hn 1 (Some 2) 0 \<in> entity ` set (forest (resolve [hn 1 (Some 2) 0, hn 2 (Some 1) 0]))
   \<and> hn 2 (Some 1) 0 \<in> entity ` set (forest (resolve [hn 1 (Some 2) 0, hn 2 (Some 1) 0]))
   \<and> hn 3 (Some 9) 1 \<in> entity ` set (forest (resolve
        [hn 1 None 5, hn 2 (Some 1) 3, hn 3 (Some 9) 1, hn 4 (Some 5) 0,
         hn 5 (Some 4) 0, hn 6 (Some 4) 0, hn 7 (Some 1) 2, hn 8 (Some 7) 0]))
   \<and> resolve [hn 1 None 5, hn 2 (Some 1) 3, hn 3 (Some 9) 1, hn 4 (Some 5) 0,
        hn 5 (Some 4) 0, hn 6 (Some 4) 0, hn 7 (Some 1) 2, hn 8 (Some 7) 0]
     = \<lparr>forest =
          [Node (hn 3 (Some 9) 1) [],
           Node (hn 1 None 5)
             [Node (hn 7 (Some 1) 2) [Node (hn 8 (Some 7) 0) []],
              Node (hn 2 (Some 1) 3) []],
           Node (hn 4 (Some 5) 0) [], Node (hn 5 (Some 4) 0) [], Node (hn 6 (Some 4) 0) []],
        demoted = [3, 4, 5, 6]\<rparr>"
proof -
  let ?a = "hn 1 (Some 2) 0" and ?b = "hn 2 (Some 1) 0"
  have r: "resolve [?a, ?b] = \<lparr>forest = [Node ?a [], Node ?b []], demoted = [1, 2]\<rparr>"
    by code_simp
  have d: "distinct (ids [?a, ?b])" by (simp add: ids_def hn_def)
  have na: "\<not> anchored [?a, ?b] ?a" and nb: "\<not> anchored [?a, ?b] ?b"
    using cycle_not_anchored by blast+
  from hierarchy_forest [OF d] na nb
  have e: "?a \<in> entity ` set (forest (resolve [?a, ?b]))"
    "?b \<in> entity ` set (forest (resolve [?a, ?b]))" by simp_all
  have n: "forest_nodes (forest (resolve [?a, ?b])) = [?a, ?b]" by (simp add: r)
  have big: "resolve [hn 1 None 5, hn 2 (Some 1) 3, hn 3 (Some 9) 1, hn 4 (Some 5) 0,
        hn 5 (Some 4) 0, hn 6 (Some 4) 0, hn 7 (Some 1) 2, hn 8 (Some 7) 0]
     = \<lparr>forest =
          [Node (hn 3 (Some 9) 1) [],
           Node (hn 1 None 5)
             [Node (hn 7 (Some 1) 2) [Node (hn 8 (Some 7) 0) []],
              Node (hn 2 (Some 1) 3) []],
           Node (hn 4 (Some 5) 0) [], Node (hn 5 (Some 4) 0) [], Node (hn 6 (Some 4) 0) []],
        demoted = [3, 4, 5, 6]\<rparr>"
    by code_simp
  let ?big = "[hn 1 None 5, hn 2 (Some 1) 3, hn 3 (Some 9) 1, hn 4 (Some 5) 0,
        hn 5 (Some 4) 0, hn 6 (Some 4) 0, hn 7 (Some 1) 2, hn 8 (Some 7) 0]"
  have db: "distinct (ids ?big)" by (simp add: ids_def hn_def)
  have dg: "dangling ?big (hn 3 (Some 9) 1)" by (simp add: dangling_def ids_def hn_def)
  from hierarchy_forest [OF db] dg
  have g: "hn 3 (Some 9) 1 \<in> entity ` set (forest (resolve ?big))" by simp
  from r n e big g show ?thesis by simp
qed


end
